theory Spec2Isabelle
  imports Complex_Main
begin

text \<open>
  A model of the MoneyRAG session: the ingestion of statement files (column mapping, sign
  rule, merchant enrichment, the table of transactions), the vector index built from the
  table, the extraction of the chat answer, and the read-only guard of the SQL tool. The
  language model, the web search, the embedding model and the two stores are parameters or
  plain data; exceptions are values, and every method returns its result together with
  the session as it leaves it.
\<close>

section \<open>Python strings\<close>

text \<open>
  Strings are lists of characters. The models below cover ASCII text: \<open>str.upper\<close>
  maps \<open>a\<close>..\<open>z\<close> to \<open>A\<close>..\<open>Z\<close> and leaves every other character alone, and
  \<open>str.strip\<close> removes the ASCII characters for which \<open>str.isspace\<close> holds
  (tab, line feed, vertical tab, form feed, carriage return, the four separators
  \<open>0x1C\<close>..\<open>0x1F\<close> and the blank) from both ends.
\<close>

definition isspace :: "char \<Rightarrow> bool" where
  "isspace c = (let n = (of_char c :: nat) in (9 \<le> n \<and> n \<le> 13) \<or> (28 \<le> n \<and> n \<le> 32))"

definition strip :: "string \<Rightarrow> string" where
  "strip s = rev (dropWhile isspace (rev (dropWhile isspace s)))"

definition upper_char :: "char \<Rightarrow> char" where
  "upper_char c = (let n = (of_char c :: nat) in if 97 \<le> n \<and> n \<le> 122 then char_of (n - 32) else c)"

definition upper :: "string \<Rightarrow> string" where
  "upper s = map upper_char s"

definition startswith :: "string \<Rightarrow> string \<Rightarrow> bool" where
  "startswith s p = (take (length p) s = p)"

text \<open>\<open>substring_in w s\<close> is Python's \<open>w in s\<close> on strings: \<open>w\<close> occurs in \<open>s\<close> at some position.\<close>

fun substring_in :: "string \<Rightarrow> string \<Rightarrow> bool" where
  "substring_in w [] = (w = [])"
| "substring_in w (c # cs) = (startswith (c # cs) w \<or> substring_in w cs)"

text \<open>\<open>join sep parts\<close> is \<open>sep.join(parts)\<close>.\<close>

fun join :: "string \<Rightarrow> string list \<Rightarrow> string" where
  "join sep [] = []"
| "join sep [x] = x"
| "join sep (x # y # ys) = x @ sep @ join sep (y # ys)"

definition newline :: string where
  "newline = [CHR 0x0A]"

section \<open>The structured-query tool (\<open>mcp_sql_server.query_database\<close>)\<close>

text \<open>
  The database is a parameter: \<open>cursor.execute(query)\<close> followed by \<open>fetchall()\<close> either
  fetches rows, raises an \<open>sqlite3.Error\<close> (which the tool catches) or raises something
  else (which it does not catch). \<open>str_of\<close> is Python's \<open>str\<close> on the fetched rows.
\<close>

datatype 'r exec_result = Fetched "'r list" | Sqlite3Error string | OtherException string

datatype tool_outcome = Return string | Raise string

definition forbidden :: "string list" where
  "forbidden = [''INSERT'', ''UPDATE'', ''DELETE'', ''DROP'', ''ALTER'', ''CREATE'', ''REPLACE'', ''TRUNCATE'']"

text \<open>
  The first component of the result lists the statements handed to \<open>cursor.execute\<close>;
  the second is what the tool gives back to its caller.
\<close>

definition query_database ::
  "(string \<Rightarrow> 'r exec_result) \<Rightarrow> ('r list \<Rightarrow> string) \<Rightarrow> string \<Rightarrow> string list \<times> tool_outcome" where
  "query_database cursor_execute str_of query =
     (let query_upper = upper (strip query) in
      if \<not> startswith query_upper ''SELECT'' \<and> \<not> startswith query_upper ''PRAGMA''
      then ([], Return ''Error: Only SELECT and PRAGMA queries are allowed'')
      else if list_ex (\<lambda>forbidden_word. substring_in forbidden_word query_upper) forbidden
      then ([], Return ''Error: Query contains forbidden operation. Only SELECT queries allowed.'')
      else (case cursor_execute query of
              Fetched results \<Rightarrow>
                ([query], Return (if results = [] then ''No results found'' else str_of results))
            | Sqlite3Error e \<Rightarrow> ([query], Return (''Error: '' @ e))
            | OtherException e \<Rightarrow> ([query], Raise e)))"

section \<open>Answer extraction (\<open>MoneyRAG.chat\<close>)\<close>

text \<open>
  The content of the agent's last message is a string or a list of blocks; a block is a
  dictionary (with string keys and string values) or something else, here a bare string.
\<close>

datatype block = DictBlock "string \<rightharpoonup> string" | StrBlock string

datatype content = StrContent string | ListContent "block list"

text \<open>\<open>isinstance(block, dict) and block.get("type") == "text"\<close>\<close>

definition is_text_dict :: "block \<Rightarrow> bool" where
  "is_text_dict b = (case b of DictBlock d \<Rightarrow> d ''type'' = Some ''text'' | StrBlock _ \<Rightarrow> False)"

text \<open>\<open>block.get("text", "")\<close>\<close>

definition get_text :: "block \<Rightarrow> string" where
  "get_text b = (case b of DictBlock d \<Rightarrow> (case d ''text'' of Some t \<Rightarrow> t | None \<Rightarrow> '''')
                 | StrBlock _ \<Rightarrow> '''')"

text \<open>The \<open>for block in content\<close> loop, with \<open>text_parts\<close> as its accumulator.\<close>

fun collect_text_parts :: "block list \<Rightarrow> string list \<Rightarrow> string list" where
  "collect_text_parts [] text_parts = text_parts"
| "collect_text_parts (b # rest) text_parts =
     (if is_text_dict b then collect_text_parts rest (text_parts @ [get_text b])
      else collect_text_parts rest text_parts)"

definition extract_answer :: "content \<Rightarrow> string" where
  "extract_answer c = (case c of
       ListContent blocks \<Rightarrow> join newline (collect_text_parts blocks [])
     | StrContent s \<Rightarrow> s)"

text \<open>
  \<open>chat\<close>: the agent is a parameter that maps the thread so far and the query to the
  content of its final message and the new thread.
\<close>

definition chat :: "('t \<Rightarrow> string \<Rightarrow> content \<times> 't) \<Rightarrow> 't \<Rightarrow> string \<Rightarrow> string \<times> 't" where
  "chat agent_ainvoke thread query =
     (let (c, thread') = agent_ainvoke thread query in (extract_answer c, thread'))"

section \<open>Errors, JSON values, cells and data frames\<close>

datatype py_error =
    OutputParserException string
  | KeyError string
  | ValueError string
  | DatabaseError string
  | OtherError string

text \<open>
  Bind for results that may be an exception: the first \<open>Inl\<close> ends the computation, as a
  raise that nothing catches does.
\<close>

definition then_do :: "py_error + 'a \<Rightarrow> ('a \<Rightarrow> py_error + 'b) \<Rightarrow> py_error + 'b" where
  "then_do r f = (case r of Inl e \<Rightarrow> Inl e | Inr x \<Rightarrow> f x)"

text \<open>
  The values of the mapping that the completion returns are JSON strings or \<open>null\<close>.
\<close>

datatype json = JStr string | JNull

type_synonym mapping = "string \<rightharpoonup> json"

text \<open>\<open>mapping[key]\<close> raises \<open>KeyError\<close> on a missing key; \<open>mapping.get(key)\<close> gives \<open>None\<close>.\<close>

definition getitem_dict :: "mapping \<Rightarrow> string \<Rightarrow> py_error + json" where
  "getitem_dict m k = (case m k of Some v \<Rightarrow> Inr v | None \<Rightarrow> Inl (KeyError k))"

text \<open>
  A cell of a data frame is a number, a text or missing (\<open>NaN\<close>). A data frame is its
  header and its rows; a row maps column names to cells, and a column that a row does not
  fill reads as \<open>NaN\<close>.
\<close>

datatype cell = Num real | Str string | NaN

record dataframe =
  columns :: "string list"
  records :: "(string \<rightharpoonup> cell) list"

definition len_df :: "dataframe \<Rightarrow> nat" where
  "len_df df = length (records df)"

definition head_df :: "nat \<Rightarrow> dataframe \<Rightarrow> dataframe" where
  "head_df n df = df\<lparr>records := take n (records df)\<rparr>"

text \<open>\<open>df[key]\<close>: the column as a series, or \<open>KeyError\<close> when the frame has no such column.\<close>

definition getitem_df :: "dataframe \<Rightarrow> json \<Rightarrow> py_error + cell list" where
  "getitem_df df key = (case key of
       JStr col \<Rightarrow>
         if col \<in> set (columns df)
         then Inr (map (\<lambda>r. case r col of Some v \<Rightarrow> v | None \<Rightarrow> NaN) (records df))
         else Inl (KeyError col)
     | JNull \<Rightarrow> Inl (KeyError ''None''))"

text \<open>
  \<open>pd.to_numeric\<close>: numbers stay, missing cells stay missing (\<open>None\<close> below), and a text
  that \<open>read_csv\<close> did not read as a number raises \<open>ValueError\<close>. Amounts are real
  numbers, so \<open>* -1\<close> is exact.
\<close>

fun numeric_cell :: "cell \<Rightarrow> real option option" where
  "numeric_cell (Num x) = Some (Some x)"
| "numeric_cell NaN = Some None"
| "numeric_cell (Str s) = None"

definition to_numeric :: "cell list \<Rightarrow> py_error + real option list" where
  "to_numeric series = (case those (map numeric_cell series) of
       Some xs \<Rightarrow> Inr xs
     | None \<Rightarrow> Inl (ValueError ''Unable to parse string''))"

text \<open>\<open>x * -1\<close> on one element of a numeric series.\<close>

definition times_minus_one :: "real option \<Rightarrow> real option" where
  "times_minus_one x = map_option (\<lambda>v. v * (- 1)) x"

text \<open>\<open>os.path.basename\<close>\<close>

definition basename :: "string \<Rightarrow> string" where
  "basename p = rev (takeWhile (\<lambda>c. c \<noteq> CHR ''/'') (rev p))"

text \<open>\<open>Series.unique()\<close>: the distinct values in order of first appearance.\<close>

fun unique :: "'a list \<Rightarrow> 'a list" where
  "unique [] = []"
| "unique (x # xs) = x # unique (removeAll x xs)"

text \<open>\<open>dict(pairs)\<close>: later pairs overwrite earlier ones.\<close>

definition dict_of :: "('k \<times> 'v) list \<Rightarrow> 'k \<rightharpoonup> 'v" where
  "dict_of kvs = fold (\<lambda>(k, v) m. m(k \<mapsto> v)) kvs Map.empty"

text \<open>
  \<open>Series.map(d)\<close> looks every element up in the dictionary and gives a missing value
  (\<open>None\<close>) for an element that is not a key; \<open>fillna(v)\<close> replaces the missing values.
\<close>

definition series_map :: "('k \<rightharpoonup> 'v) \<Rightarrow> 'k list \<Rightarrow> 'v option list" where
  "series_map d series = map d series"

definition fillna :: "'v \<Rightarrow> 'v option list \<Rightarrow> 'v list" where
  "fillna v series = map (\<lambda>x. case x of Some y \<Rightarrow> y | None \<Rightarrow> v) series"

section \<open>The session of \<open>MoneyRAG\<close>\<close>

type_synonym timestamp = string

text \<open>The columns of \<open>standard_df\<close> before enrichment, and a row of the table \<open>transactions\<close>.\<close>

record std_row =
  txn_id :: string
  transaction_date :: timestamp
  description :: cell
  amount :: "real option"
  category :: cell
  source_file :: string

record transaction = std_row +
  enriched_info :: "string option"

text \<open>A point of a vector collection: the text, the metadata and the embedding.\<close>

record point =
  page_content :: string
  meta_id :: string
  meta_amount :: "real option"
  meta_category :: cell
  meta_transaction_date :: string
  embedding :: "real list"

record collection =
  vector_size :: nat
  points :: "point list"

record csv_file =
  file_path :: string
  frame :: dataframe

text \<open>
  What the session calls but does not own: the completion chain (prompt, model and JSON
  parser) on the headers, the sample and the file name; the web search; \<open>pd.to_datetime\<close>
  on one cell (\<open>None\<close> when it cannot parse); the supply of \<open>uuid4\<close> values; Python's
  \<open>str\<close> on a number; and the embedding model.
\<close>

record externals =
  chain_ainvoke :: "string list \<Rightarrow> dataframe \<Rightarrow> string \<Rightarrow> py_error + mapping"
  search_ainvoke :: "string \<Rightarrow> py_error + string"
  parse_datetime :: "cell \<Rightarrow> timestamp option"
  uuid4 :: "nat \<Rightarrow> string"
  str_of_num :: "real \<Rightarrow> string"
  embed_query :: "string \<Rightarrow> real list"

text \<open>
  The state of one session: the merchant cache, the table \<open>transactions\<close> of the SQLite
  file (\<open>None\<close> while the table does not exist), the collections of the local Qdrant
  store by name, the queries sent to the web search so far, the number of \<open>uuid4\<close> values
  drawn, and whether the database handle, the vector store and the agent are set.
\<close>

record session =
  merchant_cache :: "cell \<rightharpoonup> string"
  transactions :: "transaction list option"
  collections :: "string \<rightharpoonup> collection"
  search_calls :: "string list"
  uuids_drawn :: nat
  db_set :: bool
  vector_store_set :: bool
  agent_set :: bool

definition to_datetime :: "externals \<Rightarrow> cell list \<Rightarrow> py_error + timestamp list" where
  "to_datetime ext series = (case those (map (parse_datetime ext) series) of
       Some ds \<Rightarrow> Inr ds
     | None \<Rightarrow> Inl (ValueError ''Unknown datetime string format''))"

definition str_of_cell :: "externals \<Rightarrow> cell \<Rightarrow> string" where
  "str_of_cell ext c = (case c of Str s \<Rightarrow> s | Num x \<Rightarrow> str_of_num ext x | NaN \<Rightarrow> ''nan'')"

section \<open>Ingestion of one file (\<open>MoneyRAG._ingest_csv\<close>)\<close>

text \<open>Putting the columns of \<open>standard_df\<close> side by side.\<close>

definition assemble ::
  "string list \<Rightarrow> timestamp list \<Rightarrow> cell list \<Rightarrow> real option list \<Rightarrow> cell list \<Rightarrow> string \<Rightarrow> std_row list" where
  "assemble ids dates descs amounts cats src =
     map (\<lambda>(i, d, ds, a, c).
            \<lparr>txn_id = i, transaction_date = d, description = ds, amount = a, category = c, source_file = src\<rparr>)
         (zip ids (zip dates (zip descs (zip amounts cats))))"

text \<open>Line 116: the sign rule of the primary path.\<close>

definition normalize_amounts :: "json \<Rightarrow> real option list \<Rightarrow> real option list" where
  "normalize_amounts sign_convention raw_amounts =
     (if sign_convention = JStr ''spending_is_negative'' then map times_minus_one raw_amounts
      else raw_amounts)"

text \<open>Line 117: the category column when the mapping names one, else \<open>Uncategorized\<close>.\<close>

definition category_series :: "dataframe \<Rightarrow> mapping \<Rightarrow> py_error + cell list" where
  "category_series df m = (case m ''category_col'' of
       Some (JStr c) \<Rightarrow>
         if c \<noteq> [] then getitem_df df (JStr c)
         else Inr (replicate (len_df df) (Str ''Uncategorized''))
     | _ \<Rightarrow> Inr (replicate (len_df df) (Str ''Uncategorized'')))"

text \<open>Line 115, and line 51 of the second path: \<open>pd.to_numeric(df[mapping['amount_col']])\<close>.\<close>

definition raw_amounts_of :: "csv_file \<Rightarrow> mapping \<Rightarrow> py_error + real option list" where
  "raw_amounts_of file m =
     then_do (getitem_dict m ''amount_col'') (\<lambda>amount_col.
     then_do (getitem_df (frame file) amount_col) (\<lambda>amount_series.
       to_numeric amount_series))"

text \<open>Lines 110 to 118: \<open>standard_df\<close> from the frame, the mapping and the fresh ids.\<close>

definition standardize :: "externals \<Rightarrow> csv_file \<Rightarrow> mapping \<Rightarrow> string list \<Rightarrow> py_error + std_row list" where
  "standardize ext file m ids =
     then_do (getitem_dict m ''date_col'') (\<lambda>date_col.
     then_do (getitem_df (frame file) date_col) (\<lambda>date_series.
     then_do (to_datetime ext date_series) (\<lambda>dates.
     then_do (getitem_dict m ''desc_col'') (\<lambda>desc_col.
     then_do (getitem_df (frame file) desc_col) (\<lambda>descs.
     then_do (raw_amounts_of file m) (\<lambda>raw_amounts.
     then_do (getitem_dict m ''sign_convention'') (\<lambda>sign_convention.
     then_do (category_series (frame file) m) (\<lambda>cats.
       Inr (assemble ids dates descs (normalize_amounts sign_convention raw_amounts) cats
              (basename (file_path file)))))))))))"

text \<open>
  \<open>get_merchant_info\<close>: a cached description is answered from the cache with no search;
  otherwise the search is called once, and its result is cached and returned, or, when it
  raises, \<open>Unknown\<close> is returned and the cache is left as it is.
\<close>

definition search_question :: "externals \<Rightarrow> cell \<Rightarrow> string" where
  "search_question ext d = ''What type of business / store is '' @ [CHR 0x27] @ str_of_cell ext d @ [CHR 0x27] @ ''?''"

definition get_merchant_info :: "externals \<Rightarrow> cell \<Rightarrow> session \<Rightarrow> string \<times> session" where
  "get_merchant_info ext d s =
     (case merchant_cache s d of
        Some cached \<Rightarrow> (cached, s)
      | None \<Rightarrow>
          (let s1 = s\<lparr>search_calls := search_calls s @ [search_question ext d]\<rparr> in
           case search_ainvoke ext (search_question ext d) of
             Inr result \<Rightarrow> (result, s1\<lparr>merchant_cache := (merchant_cache s1)(d \<mapsto> result)\<rparr>)
           | Inl e \<Rightarrow> (''Unknown'', s1)))"

text \<open>
  \<open>asyncio.gather\<close> over the tasks of one batch, run here one after the other in the order
  of the list. The descriptions of a batch are distinct and a task reads and writes the
  cache at its own description only, so the results and the final cache do not depend on
  how the event loop interleaves the tasks: the last section of the definitions models
  the interleaving, and \<open>schedule_independence\<close> proves that every complete run of the tasks
  agrees with this function.
\<close>

fun gather :: "externals \<Rightarrow> cell list \<Rightarrow> session \<Rightarrow> string list \<times> session" where
  "gather ext [] s = ([], s)"
| "gather ext (d # ds) s =
     (let (r, s1) = get_merchant_info ext d s;
          (rs, s2) = gather ext ds s1
      in (r # rs, s2))"

text \<open>
  Lines 122 to 143, one enrichment batch: the unique descriptions, the gathered results
  and the dictionary \<open>desc_map\<close> from the one to the other.
\<close>

definition enrich :: "externals \<Rightarrow> cell list \<Rightarrow> session \<Rightarrow> (cell \<rightharpoonup> string) \<times> session" where
  "enrich ext descriptions s =
     (let unique_descriptions = unique descriptions;
          (enrichment_results, s1) = gather ext unique_descriptions s
      in (dict_of (zip unique_descriptions enrichment_results), s1))"

text \<open>Line 144: the enrichment column of \<open>standard_df\<close>.\<close>

definition attach_enrichment :: "(cell \<rightharpoonup> string) \<Rightarrow> std_row list \<Rightarrow> transaction list" where
  "attach_enrichment desc_map rows =
     map (\<lambda>(r, e). \<lparr>txn_id = txn_id r, transaction_date = transaction_date r,
                     description = description r, amount = amount r, category = category r,
                     source_file = source_file r, enriched_info = Some e\<rparr>)
         (zip rows (fillna '''' (series_map desc_map (map description rows))))"

text \<open>\<open>to_sql(..., if_exists="append")\<close>: creates the table when it is missing.\<close>

definition to_sql_append :: "transaction list \<Rightarrow> transaction list option \<Rightarrow> transaction list option" where
  "to_sql_append rows table = (case table of None \<Rightarrow> Some rows | Some old \<Rightarrow> Some (old @ rows))"

text \<open>The rows of a table; none while the table does not exist.\<close>

definition rows_of :: "'a list option \<Rightarrow> 'a list" where
  "rows_of table = (case table of None \<Rightarrow> [] | Some rows \<Rightarrow> rows)"

definition table_rows :: "session \<Rightarrow> transaction list" where
  "table_rows s = rows_of (transactions s)"

text \<open>
  The result of a method is the exception it raises or its value, together with the
  session as the call leaves it.
\<close>

definition MoneyRAG_ingest_csv :: "externals \<Rightarrow> csv_file \<Rightarrow> session \<Rightarrow> (py_error + unit) \<times> session" where
  "MoneyRAG_ingest_csv ext file s =
     (let df = frame file in
      case chain_ainvoke ext (columns df) (head_df 10 df) (basename (file_path file)) of
        Inl e \<Rightarrow> (Inl e, s)
      | Inr m \<Rightarrow>
          (let ids = map (uuid4 ext) [uuids_drawn s ..< uuids_drawn s + len_df df];
               s1 = s\<lparr>uuids_drawn := uuids_drawn s + len_df df\<rparr>
           in case standardize ext file m ids of
                Inl e \<Rightarrow> (Inl e, s1)
              | Inr standard_df \<Rightarrow>
                  (let (desc_map, s2) = enrich ext (map description standard_df) s1;
                       rows = attach_enrichment desc_map standard_df
                   in (Inr (), s2\<lparr>transactions := to_sql_append rows (transactions s2)\<rparr>))))"

section \<open>Indexing (\<open>MoneyRAG._sync_to_qdrant\<close>)\<close>

text \<open>
  The text of one transaction: description and category, and the enrichment when it is
  there and is neither empty nor \<open>Unknown\<close>.
\<close>

definition compose_text :: "externals \<Rightarrow> transaction \<Rightarrow> string" where
  "compose_text ext row =
     (let base_text = str_of_cell ext (description row) @ '' ('' @ str_of_cell ext (category row) @ '')''
      in case enriched_info row of
           Some enriched \<Rightarrow>
             if enriched \<noteq> [] \<and> enriched \<noteq> ''Unknown'' \<and> enriched \<noteq> ''''
             then base_text @ '' - '' @ enriched
             else base_text
         | None \<Rightarrow> base_text)"

text \<open>The \<open>for _, row in df.iterrows()\<close> loop, with \<open>texts\<close> as its accumulator.\<close>

fun build_texts :: "externals \<Rightarrow> transaction list \<Rightarrow> string list \<Rightarrow> string list" where
  "build_texts ext [] texts = texts"
| "build_texts ext (row # rest) texts = build_texts ext rest (texts @ [compose_text ext row])"

text \<open>
  \<open>client.recreate_collection\<close> drops the collection of that name, if any, and creates an
  empty one; \<open>add_texts\<close> embeds each text and appends one point per text to the
  collection.
\<close>

definition recreate_collection :: "string \<Rightarrow> nat \<Rightarrow> (string \<rightharpoonup> collection) \<Rightarrow> (string \<rightharpoonup> collection)" where
  "recreate_collection name n cs = cs(name \<mapsto> \<lparr>vector_size = n, points = []\<rparr>)"

definition make_point :: "externals \<Rightarrow> string \<Rightarrow> transaction \<Rightarrow> point" where
  "make_point ext t m =
     \<lparr>page_content = t, meta_id = txn_id m, meta_amount = amount m, meta_category = category m,
      meta_transaction_date = transaction_date m, embedding = embed_query ext t\<rparr>"

definition add_texts ::
  "externals \<Rightarrow> string \<Rightarrow> string list \<Rightarrow> transaction list \<Rightarrow> (string \<rightharpoonup> collection)
     \<Rightarrow> py_error + (string \<rightharpoonup> collection)" where
  "add_texts ext name texts metadatas cs = (case cs name of
       None \<Rightarrow> Inl (ValueError ''Collection not found'')
     | Some c \<Rightarrow>
         Inr (cs(name \<mapsto> c\<lparr>points := points c @ map (\<lambda>(t, m). make_point ext t m) (zip texts metadatas)\<rparr>)))"

text \<open>
  The value of \<open>_sync_to_qdrant\<close> is the vector store, given here by the name of its
  collection. Reading a table that does not exist raises in \<open>read_sql_query\<close>.
\<close>

definition MoneyRAG_sync_to_qdrant :: "externals \<Rightarrow> session \<Rightarrow> (py_error + string) \<times> session" where
  "MoneyRAG_sync_to_qdrant ext s = (case transactions s of
       None \<Rightarrow> (Inl (DatabaseError ''no such table: transactions''), s)
     | Some df \<Rightarrow>
         if df = []
         then (Inl (ValueError ''No transactions found in database. Please ingest CSV files first.''), s)
         else
           (let embedding_dim = length (embed_query ext ''test'');
                s1 = s\<lparr>collections := recreate_collection ''transactions'' embedding_dim (collections s)\<rparr>;
                texts = build_texts ext df []
            in case add_texts ext ''transactions'' texts df (collections s1) of
                 Inl e \<Rightarrow> (Inl e, s1)
               | Inr cs \<Rightarrow> (Inr ''transactions'', s1\<lparr>collections := cs\<rparr>)))"

text \<open>The number of vector records of the collection \<open>transactions\<close>.\<close>

definition vector_count :: "session \<Rightarrow> nat option" where
  "vector_count s = map_option (\<lambda>c. length (points c)) (collections s ''transactions'')"

definition row_count :: "session \<Rightarrow> nat option" where
  "row_count s = map_option length (transactions s)"

section \<open>Setting up a session (\<open>MoneyRAG.setup_session\<close>)\<close>

text \<open>The \<open>for path in csv_paths\<close> loop: an exception of one file leaves the loop.\<close>

fun ingest_all :: "externals \<Rightarrow> csv_file list \<Rightarrow> session \<Rightarrow> (py_error + unit) \<times> session" where
  "ingest_all ext [] s = (Inr (), s)"
| "ingest_all ext (path # rest) s = (case MoneyRAG_ingest_csv ext path s of
       (Inl e, s1) \<Rightarrow> (Inl e, s1)
     | (Inr u, s1) \<Rightarrow> ingest_all ext rest s1)"

definition setup_session :: "externals \<Rightarrow> csv_file list \<Rightarrow> session \<Rightarrow> (py_error + unit) \<times> session" where
  "setup_session ext csv_paths s = (case ingest_all ext csv_paths s of
       (Inl e, s1) \<Rightarrow> (Inl e, s1)
     | (Inr u, s1) \<Rightarrow>
         (case MoneyRAG_sync_to_qdrant ext (s1\<lparr>db_set := True\<rparr>) of
            (Inl e, s2) \<Rightarrow> (Inl e, s2)
          | (Inr vs, s2) \<Rightarrow> (Inr (), s2\<lparr>vector_store_set := True, agent_set := True\<rparr>)))"

section \<open>The second ingestion path (\<open>utils.data_ingestion.ingest_csv\<close>)\<close>

record plain_row =
  plain_transaction_date :: timestamp
  plain_description :: cell
  plain_amount :: "real option"
  plain_category :: cell
  plain_source_file :: string

text \<open>Lines 54 to 59: the sign rule of this path.\<close>

definition normalize_amounts_utils :: "json option \<Rightarrow> real option list \<Rightarrow> real option list" where
  "normalize_amounts_utils sign_convention raw_amounts =
     (if sign_convention = Some (JStr ''payment_is_positive'') then map times_minus_one raw_amounts
      else raw_amounts)"

definition assemble_plain ::
  "timestamp list \<Rightarrow> cell list \<Rightarrow> real option list \<Rightarrow> cell list \<Rightarrow> string \<Rightarrow> plain_row list" where
  "assemble_plain dates descs amounts cats src =
     map (\<lambda>(d, ds, a, c).
            \<lparr>plain_transaction_date = d, plain_description = ds, plain_amount = a,
             plain_category = c, plain_source_file = src\<rparr>)
         (zip dates (zip descs (zip amounts cats)))"

definition standardize_utils :: "externals \<Rightarrow> csv_file \<Rightarrow> mapping \<Rightarrow> py_error + plain_row list" where
  "standardize_utils ext file m =
     then_do (getitem_dict m ''date_col'') (\<lambda>date_col.
     then_do (getitem_df (frame file) date_col) (\<lambda>date_series.
     then_do (to_datetime ext date_series) (\<lambda>dates.
     then_do (getitem_dict m ''desc_col'') (\<lambda>desc_col.
     then_do (getitem_df (frame file) desc_col) (\<lambda>descs.
     then_do (raw_amounts_of file m) (\<lambda>raw_amounts.
     then_do (category_series (frame file) m) (\<lambda>cats.
       Inr (assemble_plain dates descs (normalize_amounts_utils (m ''sign_convention'') raw_amounts) cats
              (file_path file)))))))))"

text \<open>The table of this path is passed in and returned.\<close>

definition ingest_csv ::
  "externals \<Rightarrow> csv_file \<Rightarrow> plain_row list option \<Rightarrow> (py_error + unit) \<times> plain_row list option" where
  "ingest_csv ext file table =
     (let df = frame file in
      case chain_ainvoke ext (columns df) (head_df 5 df) (file_path file) of
        Inl e \<Rightarrow> (Inl e, table)
      | Inr m \<Rightarrow>
          (case standardize_utils ext file m of
             Inl e \<Rightarrow> (Inl e, table)
           | Inr standard_df \<Rightarrow>
               (Inr (), (case table of None \<Rightarrow> Some standard_df | Some old \<Rightarrow> Some (old @ standard_df)))))"

section \<open>A session at its start, and example data\<close>

text \<open>The session as \<open>MoneyRAG.__init__\<close> leaves it.\<close>

definition MoneyRAG_init :: session where
  "MoneyRAG_init =
     \<lparr>merchant_cache = Map.empty, transactions = None, collections = Map.empty,
      search_calls = [], uuids_drawn = 0, db_set = False, vector_store_set = False,
      agent_set = False\<rparr>"

text \<open>
  A statement of three rows, two of them at the same merchant, stored under three file
  names; a completion that answers with the convention \<open>spending_is_negative\<close> for the
  file \<open>chase.csv\<close>, with \<open>payment_is_positive\<close> for \<open>bank.csv\<close>, with text that is
  not JSON for \<open>broken.csv\<close> and with \<open>spending_is_positive\<close> for every other file; a file
  with a header and no rows; and a web search that fails for Walmart.
\<close>

definition example_frame :: dataframe where
  "example_frame =
     \<lparr>columns = [''Date'', ''Description'', ''Amount''],
      records =
        [[''Date'' \<mapsto> Str ''2024-01-05'', ''Description'' \<mapsto> Str ''Starbucks'', ''Amount'' \<mapsto> Num (- 42.5)],
         [''Date'' \<mapsto> Str ''2024-01-06'', ''Description'' \<mapsto> Str ''Starbucks'', ''Amount'' \<mapsto> Num (- 3)],
         [''Date'' \<mapsto> Str ''2024-01-07'', ''Description'' \<mapsto> Str ''Walmart'', ''Amount'' \<mapsto> Num 100]]\<rparr>"

definition chase_file :: csv_file where
  "chase_file = \<lparr>file_path = ''/tmp/session/chase.csv'', frame = example_frame\<rparr>"

definition discover_file :: csv_file where
  "discover_file = \<lparr>file_path = ''/tmp/session/discover.csv'', frame = example_frame\<rparr>"

definition broken_file :: csv_file where
  "broken_file = \<lparr>file_path = ''/tmp/session/broken.csv'', frame = example_frame\<rparr>"

definition bank_file :: csv_file where
  "bank_file = \<lparr>file_path = ''/tmp/session/bank.csv'', frame = example_frame\<rparr>"

definition header_only_file :: csv_file where
  "header_only_file =
     \<lparr>file_path = ''/tmp/session/empty.csv'',
      frame = \<lparr>columns = [''Date'', ''Description'', ''Amount''], records = []\<rparr>\<rparr>"

definition example_mapping :: "string \<Rightarrow> mapping" where
  "example_mapping sign_convention =
     [''date_col'' \<mapsto> JStr ''Date'', ''desc_col'' \<mapsto> JStr ''Description'',
      ''amount_col'' \<mapsto> JStr ''Amount'', ''category_col'' \<mapsto> JNull,
      ''sign_convention'' \<mapsto> JStr sign_convention]"

definition example_ext :: externals where
  "example_ext =
     \<lparr>chain_ainvoke = (\<lambda>headers sample filename.
         if basename filename = ''broken.csv'' then Inl (OutputParserException ''Invalid json output'')
         else if basename filename = ''chase.csv'' then Inr (example_mapping ''spending_is_negative'')
         else if basename filename = ''bank.csv'' then Inr (example_mapping ''payment_is_positive'')
         else Inr (example_mapping ''spending_is_positive'')),
      search_ainvoke = (\<lambda>q. if substring_in ''Walmart'' q then Inl (OtherError ''rate limited'')
                            else Inr ''Coffee shop''),
      parse_datetime = (\<lambda>c. case c of Str s \<Rightarrow> Some s | _ \<Rightarrow> None),
      uuid4 = (\<lambda>n. ''uuid-'' @ replicate n (CHR ''i'')),
      str_of_num = (\<lambda>x. ''0''),
      embed_query = (\<lambda>t. [0, 0, 0])\<rparr>"

section \<open>The tasks of one enrichment batch under the semaphore\<close>

text \<open>
  Lines 123 to 141 as the event loop runs them. A task of \<open>get_merchant_info\<close> has not
  started, or waits at \<open>async with sem\<close>, or holds a slot of the semaphore (asleep in
  \<open>asyncio.sleep\<close>, then awaiting the search), or has returned its result. A batch is its
  tasks, the value of the semaphore and the session.
\<close>

datatype task_state = NotStarted | Waiting | Sleeping | Searching | Finished string

record batch =
  tasks :: "(cell \<times> task_state) list"
  sem_value :: nat
  sess :: session

text \<open>Line 123: \<open>sem = asyncio.Semaphore(5)\<close>; line 140: one task per unique description.\<close>

definition init_batch :: "cell list \<Rightarrow> session \<Rightarrow> batch" where
  "init_batch descriptions s =
     \<lparr>tasks = map (\<lambda>d. (d, NotStarted)) (unique descriptions), sem_value = 5, sess = s\<rparr>"

definition holds_slot :: "task_state \<Rightarrow> bool" where
  "holds_slot t = (t = Sleeping \<or> t = Searching)"

text \<open>The lookups in flight: the tasks inside \<open>async with sem\<close>.\<close>

definition in_flight :: "batch \<Rightarrow> nat" where
  "in_flight b = length (filter (\<lambda>(d, t). holds_slot t) (tasks b))"

text \<open>
  One step of one task, on the task at position \<open>i\<close>: the cache check at the start of
  the coroutine, the acquisition of a slot (only when the semaphore is not zero), the end
  of the sleep (the search is called), and the end of the search with a result or with an
  exception; leaving \<open>async with sem\<close> gives the slot back. The event loop may run the
  steps of different tasks in any order.
\<close>

inductive step :: "externals \<Rightarrow> batch \<Rightarrow> batch \<Rightarrow> bool" for ext :: externals where
  cache_hit:
    "i < length (tasks b) \<Longrightarrow> tasks b ! i = (d, NotStarted) \<Longrightarrow> merchant_cache (sess b) d = Some v
     \<Longrightarrow> step ext b (b\<lparr>tasks := (tasks b)[i := (d, Finished v)]\<rparr>)"
| cache_miss:
    "i < length (tasks b) \<Longrightarrow> tasks b ! i = (d, NotStarted) \<Longrightarrow> merchant_cache (sess b) d = None
     \<Longrightarrow> step ext b (b\<lparr>tasks := (tasks b)[i := (d, Waiting)]\<rparr>)"
| acquire:
    "i < length (tasks b) \<Longrightarrow> tasks b ! i = (d, Waiting) \<Longrightarrow> 0 < sem_value b
     \<Longrightarrow> step ext b (b\<lparr>tasks := (tasks b)[i := (d, Sleeping)], sem_value := sem_value b - 1\<rparr>)"
| wake:
    "i < length (tasks b) \<Longrightarrow> tasks b ! i = (d, Sleeping)
     \<Longrightarrow> step ext b (b\<lparr>tasks := (tasks b)[i := (d, Searching)],
                       sess := (sess b)\<lparr>search_calls := search_calls (sess b) @ [search_question ext d]\<rparr>\<rparr>)"
| search_returns:
    "i < length (tasks b) \<Longrightarrow> tasks b ! i = (d, Searching)
     \<Longrightarrow> search_ainvoke ext (search_question ext d) = Inr r
     \<Longrightarrow> step ext b (b\<lparr>tasks := (tasks b)[i := (d, Finished r)], sem_value := sem_value b + 1,
                       sess := (sess b)\<lparr>merchant_cache := (merchant_cache (sess b))(d \<mapsto> r)\<rparr>\<rparr>)"
| search_raises:
    "i < length (tasks b) \<Longrightarrow> tasks b ! i = (d, Searching)
     \<Longrightarrow> search_ainvoke ext (search_question ext d) = Inl e
     \<Longrightarrow> step ext b (b\<lparr>tasks := (tasks b)[i := (d, Finished ''Unknown'')], sem_value := sem_value b + 1\<rparr>)"

text \<open>
  The same steps as a function: \<open>advance ext i b\<close> lets the task at position \<open>i\<close> take its
  next step when it can take one, and \<open>run\<close> follows a schedule, a list of positions.
\<close>

definition advance :: "externals \<Rightarrow> nat \<Rightarrow> batch \<Rightarrow> batch" where
  "advance ext i b =
     (if i < length (tasks b) then
        (case tasks b ! i of
           (d, NotStarted) \<Rightarrow>
             (case merchant_cache (sess b) d of
                Some v \<Rightarrow> b\<lparr>tasks := (tasks b)[i := (d, Finished v)]\<rparr>
              | None \<Rightarrow> b\<lparr>tasks := (tasks b)[i := (d, Waiting)]\<rparr>)
         | (d, Waiting) \<Rightarrow>
             if 0 < sem_value b
             then b\<lparr>tasks := (tasks b)[i := (d, Sleeping)], sem_value := sem_value b - 1\<rparr>
             else b
         | (d, Sleeping) \<Rightarrow>
             b\<lparr>tasks := (tasks b)[i := (d, Searching)],
               sess := (sess b)\<lparr>search_calls := search_calls (sess b) @ [search_question ext d]\<rparr>\<rparr>
         | (d, Searching) \<Rightarrow>
             (case search_ainvoke ext (search_question ext d) of
                Inr r \<Rightarrow>
                  b\<lparr>tasks := (tasks b)[i := (d, Finished r)], sem_value := sem_value b + 1,
                    sess := (sess b)\<lparr>merchant_cache := (merchant_cache (sess b))(d \<mapsto> r)\<rparr>\<rparr>
              | Inl e \<Rightarrow>
                  b\<lparr>tasks := (tasks b)[i := (d, Finished ''Unknown'')], sem_value := sem_value b + 1\<rparr>)
         | (d, Finished r) \<Rightarrow> b)
      else b)"

fun run :: "externals \<Rightarrow> nat list \<Rightarrow> batch \<Rightarrow> batch" where
  "run ext [] b = b"
| "run ext (i # schedule) b = run ext schedule (advance ext i b)"

text \<open>Six merchants, for a batch with more tasks than the semaphore has slots.\<close>

definition six_merchants :: "cell list" where
  "six_merchants = [Str ''Starbucks'', Str ''Walmart'', Str ''Target'', Str ''Costco'', Str ''Safeway'', Str ''Shell'']"

text \<open>
  \<open>asyncio.gather\<close> returns when every task has returned, with the results of the tasks in
  the order of the tasks.
\<close>

definition is_finished :: "task_state \<Rightarrow> bool" where
  "is_finished t = (case t of Finished r \<Rightarrow> True | _ \<Rightarrow> False)"

definition finished :: "batch \<Rightarrow> bool" where
  "finished b = list_all (\<lambda>(d, t). is_finished t) (tasks b)"

definition results :: "batch \<Rightarrow> string list" where
  "results b = map (\<lambda>(d, t). case t of Finished r \<Rightarrow> r | _ \<Rightarrow> '''') (tasks b)"

text \<open>
  For the proofs about all schedules. With \<open>c\<close> the cache when the batch starts:
  \<open>answer_of ext c d\<close> is what the task of \<open>d\<close> returns and \<open>entry_after ext c d\<close> is the
  cache entry of \<open>d\<close> once the task has returned; \<open>task_ok\<close> says how far the cache entry of
  a task has come, given the state of the task; \<open>called\<close> holds of the tasks that have
  called the search; \<open>batch_inv\<close> is the invariant of the runs of a batch over the
  descriptions \<open>ds\<close> from the session \<open>s\<close>.
\<close>

definition answer_of :: "externals \<Rightarrow> (cell \<rightharpoonup> string) \<Rightarrow> cell \<Rightarrow> string" where
  "answer_of ext c d = (case c d of
       Some v \<Rightarrow> v
     | None \<Rightarrow> (case search_ainvoke ext (search_question ext d) of Inr r \<Rightarrow> r | Inl e \<Rightarrow> ''Unknown''))"

definition entry_after :: "externals \<Rightarrow> (cell \<rightharpoonup> string) \<Rightarrow> cell \<Rightarrow> string option" where
  "entry_after ext c d = (case c d of
       Some v \<Rightarrow> Some v
     | None \<Rightarrow> (case search_ainvoke ext (search_question ext d) of Inr r \<Rightarrow> Some r | Inl e \<Rightarrow> None))"

definition task_ok :: "externals \<Rightarrow> (cell \<rightharpoonup> string) \<Rightarrow> (cell \<rightharpoonup> string) \<Rightarrow> cell \<times> task_state \<Rightarrow> bool" where
  "task_ok ext c0 c dt = (case dt of (d, t) \<Rightarrow> (case t of
       NotStarted \<Rightarrow> c d = c0 d
     | Finished r \<Rightarrow> r = answer_of ext c0 d \<and> c d = entry_after ext c0 d
     | _ \<Rightarrow> c0 d = None \<and> c d = None))"

definition called :: "(cell \<rightharpoonup> string) \<Rightarrow> cell \<times> task_state \<Rightarrow> bool" where
  "called c0 dt = (case dt of (d, t) \<Rightarrow> t = Searching \<or> (is_finished t \<and> c0 d = None))"

definition batch_inv :: "externals \<Rightarrow> cell list \<Rightarrow> session \<Rightarrow> batch \<Rightarrow> bool" where
  "batch_inv ext ds s b =
     (map fst (tasks b) = ds
      \<and> (\<forall>j < length (tasks b). task_ok ext (merchant_cache s) (merchant_cache (sess b)) (tasks b ! j))
      \<and> (\<forall>x. x \<notin> set ds \<longrightarrow> merchant_cache (sess b) x = merchant_cache s x)
      \<and> length (search_calls (sess b))
          = length (search_calls s) + length (filter (called (merchant_cache s)) (tasks b))
      \<and> transactions (sess b) = transactions s \<and> collections (sess b) = collections s
      \<and> uuids_drawn (sess b) = uuids_drawn s)"

text \<open>The steps a task has left, and the steps the tasks of a batch have left together.\<close>

definition remaining :: "task_state \<Rightarrow> nat" where
  "remaining t = (case t of NotStarted \<Rightarrow> 4 | Waiting \<Rightarrow> 3 | Sleeping \<Rightarrow> 2 | Searching \<Rightarrow> 1
                   | Finished r \<Rightarrow> 0)"

definition work_left :: "batch \<Rightarrow> nat" where
  "work_left b = sum_list (map (\<lambda>(d, t). remaining t) (tasks b))"


section \<open>Properties of the string functions\<close>

lemma substring_in_iff: "substring_in w s \<longleftrightarrow> (\<exists>p t. s = p @ w @ t)"
proof (induction s)
  case Nil
  then show ?case by auto
next
  case (Cons c cs)
  have "startswith (c # cs) w \<longleftrightarrow> (\<exists>t. c # cs = w @ t)"
    unfolding startswith_def
    by (metis append_eq_conv_conj append_take_drop_id)
  moreover have "(\<exists>p t. c # cs = p @ w @ t) \<longleftrightarrow> (\<exists>t. c # cs = w @ t) \<or> (\<exists>p t. cs = p @ w @ t)"
  proof
    assume "\<exists>p t. c # cs = p @ w @ t"
    then obtain p t where pt: "c # cs = p @ w @ t" by blast
    show "(\<exists>t. c # cs = w @ t) \<or> (\<exists>p t. cs = p @ w @ t)"
    proof (cases p)
      case Nil
      with pt show ?thesis by auto
    next
      case (Cons a p')
      with pt have "cs = p' @ w @ t" by simp
      then show ?thesis by blast
    qed
  next
    assume "(\<exists>t. c # cs = w @ t) \<or> (\<exists>p t. cs = p @ w @ t)"
    then show "\<exists>p t. c # cs = p @ w @ t"
    proof
      assume "\<exists>t. c # cs = w @ t"
      then obtain t where "c # cs = [] @ w @ t" by auto
      then show ?thesis by blast
    next
      assume "\<exists>p t. cs = p @ w @ t"
      then obtain p t where "c # cs = (c # p) @ w @ t" by auto
      then show ?thesis by blast
    qed
  qed
  ultimately show ?case using Cons.IH by simp
qed

text \<open>A word without blanks that occurs in a string occurs in the stripped string too.\<close>

lemma dropWhile_keeps_word:
  assumes "w \<noteq> []" and "\<not> P (hd w)"
  shows "\<exists>p'. dropWhile P (p @ w @ t) = p' @ w @ t"
proof (cases "\<forall>x \<in> set p. P x")
  case True
  then have "dropWhile P (p @ w @ t) = dropWhile P (w @ t)"
    by (simp add: dropWhile_append2)
  also have "\<dots> = w @ t"
    using assms by (cases w) simp_all
  finally show ?thesis by (metis append_Nil)
next
  case False
  then obtain x where "x \<in> set p" "\<not> P x" by blast
  then have "dropWhile P (p @ w @ t) = dropWhile P p @ w @ t"
    by (rule dropWhile_append1)
  then show ?thesis by blast
qed

lemma strip_keeps_word:
  assumes "w \<noteq> []" and "\<forall>c \<in> set w. \<not> isspace c" and "s = p @ w @ t"
  shows "\<exists>p' t'. strip s = p' @ w @ t'"
proof -
  from assms(1,2) have first: "\<not> isspace (hd w)" and last: "\<not> isspace (hd (rev w))"
    by (simp_all add: hd_rev)
  from dropWhile_keeps_word [of w isspace p t] assms(1) first assms(3)
  obtain p' where front: "dropWhile isspace s = p' @ w @ t" by blast
  then have "rev (dropWhile isspace s) = rev t @ rev w @ rev p'" by simp
  moreover from assms(1) have "rev w \<noteq> []" by simp
  with dropWhile_keeps_word [of "rev w" isspace "rev t" "rev p'"] last
  obtain q where "dropWhile isspace (rev t @ rev w @ rev p') = q @ rev w @ rev p'" by blast
  ultimately have "strip s = p' @ w @ rev q"
    by (simp add: strip_def)
  then show ?thesis by blast
qed

lemma isspace_upper_char: "isspace (upper_char c) = isspace c"
proof (cases "97 \<le> (of_char c :: nat) \<and> (of_char c :: nat) \<le> 122")
  case False
  then have "upper_char c = c"
    by (auto simp: upper_char_def Let_def)
  then show ?thesis by simp
next
  case True
  then have up: "upper_char c = char_of ((of_char c :: nat) - 32)"
    by (auto simp: upper_char_def Let_def)
  from True have "(of_char c :: nat) - 32 < 256"
    by arith
  then have code_of: "(of_char (char_of ((of_char c :: nat) - 32)) :: nat) = of_char c - 32"
    by (simp only: of_char_of mod_less)
  from True have "\<not> isspace c"
    unfolding isspace_def Let_def by arith
  moreover from True have "\<not> isspace (char_of ((of_char c :: nat) - 32))"
    unfolding isspace_def Let_def code_of by arith
  ultimately show ?thesis
    unfolding up by simp
qed

lemma strip_upper: "strip (upper s) = upper (strip s)"
  by (simp add: strip_def upper_def dropWhile_map rev_map comp_def isspace_upper_char)

lemma forbidden_no_space: "w \<in> set forbidden \<Longrightarrow> w \<noteq> [] \<and> (\<forall>c \<in> set w. \<not> isspace c)"
  by (auto simp: forbidden_def isspace_def)

lemma forbidden_survives_strip:
  assumes "w \<in> set forbidden" and "upper q = p @ w @ t"
  shows "\<exists>p' t'. upper (strip q) = p' @ w @ t'"
proof -
  from forbidden_no_space [OF assms(1)] have "w \<noteq> []" "\<forall>c \<in> set w. \<not> isspace c"
    by simp_all
  from strip_keeps_word [OF this assms(2)] show ?thesis
    by (simp add: strip_upper)
qed

section \<open>The structured-query tool: the read-only guard\<close>

lemma rejected_when_forbidden:
  assumes "\<exists>w \<in> set forbidden. \<exists>p t. upper (strip q) = p @ w @ t"
  shows "fst (query_database cursor_execute str_of q) = []
         \<and> (\<exists>msg. snd (query_database cursor_execute str_of q) = Return (''Error: '' @ msg))"
proof -
  from assms have hit: "list_ex (\<lambda>w. substring_in w (upper (strip q))) forbidden"
    unfolding list_ex_iff substring_in_iff by blast
  then have none: "fst (query_database cursor_execute str_of q) = []"
    by (simp add: query_database_def Let_def)
  from hit have "snd (query_database cursor_execute str_of q)
          = Return (''Error: '' @ ''Only SELECT and PRAGMA queries are allowed'')
        \<or> snd (query_database cursor_execute str_of q)
          = Return (''Error: '' @ ''Query contains forbidden operation. Only SELECT queries allowed.'')"
    by (simp add: query_database_def Let_def)
  then have "\<exists>msg. snd (query_database cursor_execute str_of q) = Return (''Error: '' @ msg)"
    by blast
  with none show ?thesis by blast
qed

text \<open>
  C2. A query is handed to the database only if, stripped and upper-cased, it starts with
  SELECT or PRAGMA; and a query whose upper-cased text, stripped or not, contains one of
  the eight forbidden words at any position is never handed to the database: the tool
  returns a string that starts with \<open>Error:\<close> and raises nothing.
\<close>

theorem query_database_guard:
  "(fst (query_database cursor_execute str_of q) \<noteq> [] \<longrightarrow>
      startswith (upper (strip q)) ''SELECT'' \<or> startswith (upper (strip q)) ''PRAGMA'')
   \<and> ((\<exists>w \<in> set forbidden. \<exists>p t. upper (strip q) = p @ w @ t) \<longrightarrow>
        fst (query_database cursor_execute str_of q) = []
        \<and> (\<exists>msg. snd (query_database cursor_execute str_of q) = Return (''Error: '' @ msg)))
   \<and> ((\<exists>w \<in> set forbidden. \<exists>p t. upper q = p @ w @ t) \<longrightarrow>
        fst (query_database cursor_execute str_of q) = []
        \<and> (\<exists>msg. snd (query_database cursor_execute str_of q) = Return (''Error: '' @ msg)))"
proof -
  have accepted: "startswith (upper (strip q)) ''SELECT'' \<or> startswith (upper (strip q)) ''PRAGMA''"
    if "fst (query_database cursor_execute str_of q) \<noteq> []"
    using that by (auto simp: query_database_def Let_def split: if_splits)
  have stripped: "fst (query_database cursor_execute str_of q) = []
        \<and> (\<exists>msg. snd (query_database cursor_execute str_of q) = Return (''Error: '' @ msg))"
    if "\<exists>w \<in> set forbidden. \<exists>p t. upper (strip q) = p @ w @ t"
    using that by (rule rejected_when_forbidden)
  have whole: "fst (query_database cursor_execute str_of q) = []
        \<and> (\<exists>msg. snd (query_database cursor_execute str_of q) = Return (''Error: '' @ msg))"
    if "\<exists>w \<in> set forbidden. \<exists>p t. upper q = p @ w @ t"
  proof -
    from that obtain w p t where "w \<in> set forbidden" "upper q = p @ w @ t" by blast
    from forbidden_survives_strip [OF this] \<open>w \<in> set forbidden\<close>
    have "\<exists>w \<in> set forbidden. \<exists>p t. upper (strip q) = p @ w @ t" by blast
    then show ?thesis by (rule rejected_when_forbidden)
  qed
  from accepted stripped whole show ?thesis by blast
qed

theorem query_database_guard_witness:
  "fst (query_database (\<lambda>q. Fetched [1::nat]) (\<lambda>rs. ''[(1,)]'') ''  select * from transactions '') \<noteq> []
   \<and> (startswith (upper (strip ''  select * from transactions '')) ''SELECT''
        \<or> startswith (upper (strip ''  select * from transactions '')) ''PRAGMA'')
   \<and> ''DROP'' \<in> set forbidden
   \<and> upper (strip ''Select 1; drop table transactions'') = ''SELECT 1; '' @ ''DROP'' @ '' TABLE TRANSACTIONS''
   \<and> fst (query_database (\<lambda>q. Fetched [1::nat]) (\<lambda>rs. ''[(1,)]'') ''Select 1; drop table transactions'') = []
   \<and> (\<exists>msg. snd (query_database (\<lambda>q. Fetched [1::nat]) (\<lambda>rs. ''[(1,)]'') ''Select 1; drop table transactions'')
          = Return (''Error: '' @ msg))
   \<and> ''DELETE'' \<in> set forbidden
   \<and> upper '' delete from transactions '' = '' '' @ ''DELETE'' @ '' FROM TRANSACTIONS ''
   \<and> fst (query_database (\<lambda>q. Fetched [1::nat]) (\<lambda>rs. ''[(1,)]'') '' delete from transactions '') = []
   \<and> (\<exists>msg. snd (query_database (\<lambda>q. Fetched [1::nat]) (\<lambda>rs. ''[(1,)]'') '' delete from transactions '')
          = Return (''Error: '' @ msg))"
proof -
  let ?db = "\<lambda>q::string. Fetched [1::nat]"
  let ?str = "\<lambda>rs::nat list. ''[(1,)]''"
  have sent: "fst (query_database ?db ?str ''  select * from transactions '') \<noteq> []"
    by code_simp
  have word: "''DROP'' \<in> set forbidden"
    by (simp add: forbidden_def)
  have upper_text: "upper (strip ''Select 1; drop table transactions'') = ''SELECT 1; '' @ ''DROP'' @ '' TABLE TRANSACTIONS''"
    by code_simp
  from sent query_database_guard [of ?db ?str "''  select * from transactions ''"]
  have first: "startswith (upper (strip ''  select * from transactions '')) ''SELECT''
        \<or> startswith (upper (strip ''  select * from transactions '')) ''PRAGMA''"
    by blast
  from word upper_text have "\<exists>w \<in> set forbidden. \<exists>p t. upper (strip ''Select 1; drop table transactions'') = p @ w @ t"
    by blast
  with query_database_guard [of ?db ?str "''Select 1; drop table transactions''"]
  have second: "fst (query_database ?db ?str ''Select 1; drop table transactions'') = []
     \<and> (\<exists>msg. snd (query_database ?db ?str ''Select 1; drop table transactions'') = Return (''Error: '' @ msg))"
    by blast
  have word2: "''DELETE'' \<in> set forbidden"
    by (simp add: forbidden_def)
  have whole_text: "upper '' delete from transactions '' = '' '' @ ''DELETE'' @ '' FROM TRANSACTIONS ''"
    by code_simp
  from word2 whole_text have "\<exists>w \<in> set forbidden. \<exists>p t. upper '' delete from transactions '' = p @ w @ t"
    by blast
  with query_database_guard [of ?db ?str "'' delete from transactions ''"]
  have third: "fst (query_database ?db ?str '' delete from transactions '') = []
     \<and> (\<exists>msg. snd (query_database ?db ?str '' delete from transactions '') = Return (''Error: '' @ msg))"
    by blast
  from sent first word upper_text second word2 whole_text third show ?thesis
    by blast
qed

section \<open>Answer extraction\<close>

lemma collect_text_parts_eq:
  "collect_text_parts blocks acc = acc @ map get_text (filter is_text_dict blocks)"
  by (induction blocks arbitrary: acc) simp_all

text \<open>
  C10. String content is returned unchanged. For list content the answer is the newline
  join of the \<open>text\<close> entries of exactly the blocks that are dictionaries whose \<open>type\<close> is
  \<open>text\<close>, in their order: a block that is not such a dictionary can be removed from the
  list without changing the answer, a text block with no \<open>text\<close> key contributes the
  empty string, and a list with no text block gives the empty string.
\<close>

theorem chat_answer_extraction:
  "extract_answer (StrContent s) = s
   \<and> extract_answer (ListContent blocks) = join newline (map get_text (filter is_text_dict blocks))
   \<and> (is_text_dict b \<longleftrightarrow> (\<exists>d. b = DictBlock d \<and> d ''type'' = Some ''text''))
   \<and> (\<not> is_text_dict b \<longrightarrow>
        extract_answer (ListContent (pre @ b # post)) = extract_answer (ListContent (pre @ post)))
   \<and> (d ''type'' = Some ''text'' \<and> d ''text'' = None \<longrightarrow>
        extract_answer (ListContent [DictBlock d]) = ''''
        \<and> extract_answer (ListContent [DictBlock d, DictBlock d]) = newline)
   \<and> ((\<forall>x \<in> set blocks. \<not> is_text_dict x) \<longrightarrow> extract_answer (ListContent blocks) = '''')"
proof (intro conjI impI)
  show "extract_answer (StrContent s) = s"
    by (simp add: extract_answer_def)
  show "extract_answer (ListContent blocks) = join newline (map get_text (filter is_text_dict blocks))"
    by (simp add: extract_answer_def collect_text_parts_eq)
  show "is_text_dict b \<longleftrightarrow> (\<exists>d. b = DictBlock d \<and> d ''type'' = Some ''text'')"
    by (cases b) (simp_all add: is_text_dict_def)
next
  assume "\<not> is_text_dict b"
  then show "extract_answer (ListContent (pre @ b # post)) = extract_answer (ListContent (pre @ post))"
    by (simp add: extract_answer_def collect_text_parts_eq)
next
  assume d: "d ''type'' = Some ''text'' \<and> d ''text'' = None"
  then show "extract_answer (ListContent [DictBlock d]) = ''''"
    by (simp add: extract_answer_def is_text_dict_def get_text_def)
  from d show "extract_answer (ListContent [DictBlock d, DictBlock d]) = newline"
    by (simp add: extract_answer_def is_text_dict_def get_text_def)
next
  assume "\<forall>x \<in> set blocks. \<not> is_text_dict x"
  then have "filter is_text_dict blocks = []"
    by (simp add: filter_empty_conv)
  then show "extract_answer (ListContent blocks) = ''''"
    by (simp add: extract_answer_def collect_text_parts_eq)
qed

theorem chat_answer_extraction_witness:
  "extract_answer (ListContent
      [DictBlock [''type'' \<mapsto> ''text'', ''text'' \<mapsto> ''Hello''],
       StrBlock ''stray'',
       DictBlock [''type'' \<mapsto> ''tool_use'', ''text'' \<mapsto> ''ignored''],
       DictBlock [''type'' \<mapsto> ''text''],
       DictBlock [''type'' \<mapsto> ''text'', ''text'' \<mapsto> ''World'']])
     = ''Hello'' @ newline @ '''' @ newline @ ''World''
   \<and> \<not> is_text_dict (StrBlock ''stray'')
   \<and> extract_answer (ListContent ([DictBlock [''type'' \<mapsto> ''text'', ''text'' \<mapsto> ''Hello'']] @ StrBlock ''stray'' # []))
     = extract_answer (ListContent ([DictBlock [''type'' \<mapsto> ''text'', ''text'' \<mapsto> ''Hello'']] @ []))
   \<and> [''type'' \<mapsto> ''text''] ''type'' = Some ''text'' \<and> [''type'' \<mapsto> ''text''] ''text'' = None
   \<and> extract_answer (ListContent [DictBlock [''type'' \<mapsto> ''text'']]) = ''''
   \<and> \<not> is_text_dict (DictBlock [''type'' \<mapsto> ''image''])
   \<and> extract_answer (ListContent [StrBlock ''stray'', DictBlock [''type'' \<mapsto> ''image'']]) = ''''"
proof -
  let ?hello = "DictBlock [''type'' \<mapsto> ''text'', ''text'' \<mapsto> ''Hello'']"
  let ?tool = "DictBlock [''type'' \<mapsto> ''tool_use'', ''text'' \<mapsto> ''ignored'']"
  let ?bare = "[''type'' \<mapsto> ''text'']"
  let ?world = "DictBlock [''type'' \<mapsto> ''text'', ''text'' \<mapsto> ''World'']"
  let ?image = "DictBlock [''type'' \<mapsto> ''image'']"
  let ?all = "[?hello, StrBlock ''stray'', ?tool, DictBlock ?bare, ?world]"
  have parts: "map get_text (filter is_text_dict ?all) = [''Hello'', '''', ''World'']"
    by (simp add: is_text_dict_def get_text_def)
  have "extract_answer (ListContent ?all) = join newline (map get_text (filter is_text_dict ?all))"
    using chat_answer_extraction [of s ?all] by blast
  then have one: "extract_answer (ListContent ?all) = ''Hello'' @ newline @ '''' @ newline @ ''World''"
    unfolding parts by simp
  have stray: "\<not> is_text_dict (StrBlock ''stray'')"
    by (simp add: is_text_dict_def)
  with chat_answer_extraction [of s blocks "StrBlock ''stray''" "[?hello]" "[]"]
  have two: "extract_answer (ListContent ([?hello] @ StrBlock ''stray'' # []))
      = extract_answer (ListContent ([?hello] @ []))"
    by blast
  have keys: "?bare ''type'' = Some ''text'' \<and> ?bare ''text'' = None"
    by simp
  with chat_answer_extraction [of s blocks b pre post ?bare]
  have three: "extract_answer (ListContent [DictBlock ?bare]) = ''''"
    by blast
  have image: "\<not> is_text_dict ?image"
    by (simp add: is_text_dict_def)
  with stray have "\<forall>x \<in> set [StrBlock ''stray'', ?image]. \<not> is_text_dict x"
    by simp
  with chat_answer_extraction [of s "[StrBlock ''stray'', ?image]"]
  have four: "extract_answer (ListContent [StrBlock ''stray'', ?image]) = ''''"
    by blast
  from one stray two keys three image four show ?thesis
    by blast
qed

section \<open>Lemmas on series and data frames\<close>

lemmas model_defs =
  MoneyRAG_ingest_csv_def standardize_def raw_amounts_of_def then_do_def getitem_dict_def
  getitem_df_def to_numeric_def to_datetime_def category_series_def len_df_def head_df_def
  normalize_amounts_def times_minus_one_def assemble_def basename_def enrich_def
  get_merchant_info_def search_question_def str_of_cell_def dict_of_def attach_enrichment_def
  fillna_def series_map_def to_sql_append_def table_rows_def rows_of_def startswith_def
  example_ext_def example_frame_def chase_file_def discover_file_def broken_file_def
  header_only_file_def example_mapping_def MoneyRAG_init_def

lemmas utils_defs =
  ingest_csv_def standardize_utils_def assemble_plain_def normalize_amounts_utils_def bank_file_def

lemma those_length: "those xs = Some ys \<Longrightarrow> length ys = length xs"
  by (induction xs arbitrary: ys) (auto split: option.splits)

lemma then_do_Inr: "then_do r f = Inr y \<longleftrightarrow> (\<exists>x. r = Inr x \<and> f x = Inr y)"
  by (cases r) (simp_all add: then_do_def)

lemma getitem_df_length: "getitem_df df key = Inr series \<Longrightarrow> length series = len_df df"
  by (auto simp: getitem_df_def len_df_def split: json.splits if_splits)

lemma to_numeric_length: "to_numeric series = Inr xs \<Longrightarrow> length xs = length series"
  by (auto simp: to_numeric_def split: option.splits dest: those_length)

lemma to_datetime_length: "to_datetime ext series = Inr xs \<Longrightarrow> length xs = length series"
  by (auto simp: to_datetime_def split: option.splits dest: those_length)

lemma raw_amounts_of_length: "raw_amounts_of file m = Inr raw \<Longrightarrow> length raw = len_df (frame file)"
  by (auto simp: raw_amounts_of_def then_do_Inr dest!: to_numeric_length getitem_df_length)

lemma category_series_length: "category_series df m = Inr cats \<Longrightarrow> length cats = len_df df"
  by (auto simp: category_series_def split: option.splits json.splits if_splits dest: getitem_df_length)

lemma normalize_amounts_length: "length (normalize_amounts sc raw) = length raw"
  by (simp add: normalize_amounts_def)

lemma normalize_amounts_utils_length: "length (normalize_amounts_utils sc raw) = length raw"
  by (simp add: normalize_amounts_utils_def)

lemma times_minus_one_uminus: "times_minus_one = map_option uminus"
  by (rule ext) (simp add: times_minus_one_def)

lemma assemble_length:
  "length ids = n \<Longrightarrow> length dates = n \<Longrightarrow> length descs = n \<Longrightarrow> length amounts = n \<Longrightarrow> length cats = n
   \<Longrightarrow> length (assemble ids dates descs amounts cats src) = n"
  by (simp add: assemble_def)

lemma assemble_amount:
  "length ids = n \<Longrightarrow> length dates = n \<Longrightarrow> length descs = n \<Longrightarrow> length amounts = n \<Longrightarrow> length cats = n
   \<Longrightarrow> map amount (assemble ids dates descs amounts cats src) = amounts"
  by (intro nth_equalityI) (simp_all add: assemble_def)

lemma assemble_plain_amount:
  "length dates = n \<Longrightarrow> length descs = n \<Longrightarrow> length amounts = n \<Longrightarrow> length cats = n
   \<Longrightarrow> map plain_amount (assemble_plain dates descs amounts cats src) = amounts"
  by (intro nth_equalityI) (simp_all add: assemble_plain_def)

text \<open>What a successful \<open>standardize\<close> says about the amounts and the number of rows.\<close>

lemma standardize_amounts:
  assumes "standardize ext file m ids = Inr rows" and "length ids = len_df (frame file)"
  shows "\<exists>raw sc. raw_amounts_of file m = Inr raw \<and> m ''sign_convention'' = Some sc
          \<and> map amount rows = normalize_amounts sc raw \<and> length rows = len_df (frame file)"
proof -
  from assms(1) obtain date_col date_series dates desc_col descs raw sc cats where
    a: "getitem_df (frame file) date_col = Inr date_series" "to_datetime ext date_series = Inr dates"
       "getitem_df (frame file) desc_col = Inr descs" "raw_amounts_of file m = Inr raw"
       "getitem_dict m ''sign_convention'' = Inr sc" "category_series (frame file) m = Inr cats"
    and rows: "rows = assemble ids dates descs (normalize_amounts sc raw) cats (basename (file_path file))"
    unfolding standardize_def then_do_Inr by auto
  let ?n = "len_df (frame file)"
  have l: "length dates = ?n" "length descs = ?n" "length (normalize_amounts sc raw) = ?n" "length cats = ?n"
    using to_datetime_length [OF a(2)] getitem_df_length [OF a(1)] getitem_df_length [OF a(3)]
      raw_amounts_of_length [OF a(4)] category_series_length [OF a(6)]
    by (simp_all add: normalize_amounts_length)
  have "m ''sign_convention'' = Some sc"
    using a(5) by (auto simp: getitem_dict_def split: option.splits)
  moreover have "map amount rows = normalize_amounts sc raw"
    unfolding rows using assms(2) l by (rule assemble_amount)
  moreover have "length rows = ?n"
    unfolding rows using assms(2) l by (rule assemble_length)
  ultimately show ?thesis using a(4) by blast
qed

lemma standardize_utils_amounts:
  assumes "standardize_utils ext file m = Inr rows"
  shows "\<exists>raw. raw_amounts_of file m = Inr raw
          \<and> map plain_amount rows = normalize_amounts_utils (m ''sign_convention'') raw
          \<and> length rows = len_df (frame file)"
proof -
  from assms obtain date_col date_series dates desc_col descs raw cats where
    a: "getitem_df (frame file) date_col = Inr date_series" "to_datetime ext date_series = Inr dates"
       "getitem_df (frame file) desc_col = Inr descs" "raw_amounts_of file m = Inr raw"
       "category_series (frame file) m = Inr cats"
    and rows: "rows = assemble_plain dates descs (normalize_amounts_utils (m ''sign_convention'') raw) cats (file_path file)"
    unfolding standardize_utils_def then_do_Inr by auto
  let ?n = "len_df (frame file)"
  have l: "length dates = ?n" "length descs = ?n"
      "length (normalize_amounts_utils (m ''sign_convention'') raw) = ?n" "length cats = ?n"
    using to_datetime_length [OF a(2)] getitem_df_length [OF a(1)] getitem_df_length [OF a(3)]
      raw_amounts_of_length [OF a(4)] category_series_length [OF a(5)]
    by (simp_all add: normalize_amounts_utils_length)
  have "map plain_amount rows = normalize_amounts_utils (m ''sign_convention'') raw"
    unfolding rows using l by (rule assemble_plain_amount)
  moreover have "length rows = ?n"
    unfolding rows using l by (simp add: assemble_plain_def)
  ultimately show ?thesis using a(4) by blast
qed

lemma attach_enrichment_length: "length (attach_enrichment dm rows) = length rows"
  by (simp add: attach_enrichment_def fillna_def series_map_def)

lemma attach_enrichment_amount: "map amount (attach_enrichment dm rows) = map amount rows"
  by (intro nth_equalityI) (simp_all add: attach_enrichment_def fillna_def series_map_def)

lemma attach_enrichment_info:
  "map enriched_info (attach_enrichment dm rows)
     = map (\<lambda>r. Some (case dm (description r) of Some v \<Rightarrow> v | None \<Rightarrow> '''')) rows"
  by (intro nth_equalityI) (simp_all add: attach_enrichment_def fillna_def series_map_def)

lemma table_rows_append:
  "table_rows (s\<lparr>transactions := to_sql_append rows (transactions s)\<rparr>) = table_rows s @ rows"
  by (simp add: table_rows_def rows_of_def to_sql_append_def split: option.splits)

section \<open>Lemmas on the enrichment batch\<close>

lemma set_unique: "set (unique xs) = set xs"
  by (induction xs rule: unique.induct) auto

lemma distinct_unique: "distinct (unique xs)"
  by (induction xs rule: unique.induct) (auto simp: set_unique)

lemma fold_update_map_of:
  "fold (\<lambda>(k, v) m. m(k \<mapsto> v)) kvs m = m ++ map_of (rev kvs)"
  by (induction kvs arbitrary: m) (auto simp: map_add_upd_left)

lemma dict_of_map_of: "dict_of kvs = map_of (rev kvs)"
  by (simp add: dict_of_def fold_update_map_of)

lemma dict_of_zip_map:
  "dict_of (zip ks (map f ks)) = (\<lambda>k. if k \<in> set ks then Some (f k) else None)"
proof -
  have "rev (zip ks (map f ks)) = zip (rev ks) (map f (rev ks))"
    by (simp add: zip_rev [symmetric] rev_map)
  then show ?thesis
    by (simp add: dict_of_map_of map_of_zip_map)
qed

lemma get_merchant_info_cache_other:
  "d' \<noteq> d \<Longrightarrow> merchant_cache (snd (get_merchant_info ext d s)) d' = merchant_cache s d'"
  by (simp add: get_merchant_info_def Let_def split: option.splits sum.splits)

lemma get_merchant_info_frame:
  "transactions (snd (get_merchant_info ext d s)) = transactions s"
  "collections (snd (get_merchant_info ext d s)) = collections s"
  "uuids_drawn (snd (get_merchant_info ext d s)) = uuids_drawn s"
  by (simp_all add: get_merchant_info_def Let_def split: option.splits sum.splits)

lemma gather_Cons:
  "gather ext (d # ds) s =
     (fst (get_merchant_info ext d s) # fst (gather ext ds (snd (get_merchant_info ext d s))),
      snd (gather ext ds (snd (get_merchant_info ext d s))))"
  by (simp add: case_prod_unfold Let_def)

lemma gather_frame:
  "transactions (snd (gather ext ds s)) = transactions s
   \<and> collections (snd (gather ext ds s)) = collections s
   \<and> uuids_drawn (snd (gather ext ds s)) = uuids_drawn s"
  by (induction ds arbitrary: s) (simp_all add: gather_Cons get_merchant_info_frame del: gather.simps(2))

lemma gather_length: "length (fst (gather ext ds s)) = length ds"
  by (induction ds arbitrary: s) (simp_all add: gather_Cons del: gather.simps(2))

text \<open>
  The results of a batch of distinct descriptions, in terms of the cache at its start:
  the cached value, or the result of the search, or \<open>Unknown\<close> when the search raises.
\<close>

lemma gather_results:
  "distinct ds \<Longrightarrow> fst (gather ext ds s) =
     map (\<lambda>d. case merchant_cache s d of Some v \<Rightarrow> v
             | None \<Rightarrow> (case search_ainvoke ext (search_question ext d) of Inr r \<Rightarrow> r | Inl e \<Rightarrow> ''Unknown'')) ds"
proof (induction ds arbitrary: s)
  case Nil
  then show ?case by simp
next
  case (Cons d ds)
  let ?s1 = "snd (get_merchant_info ext d s)"
  have same: "\<And>x. x \<in> set ds \<Longrightarrow> merchant_cache ?s1 x = merchant_cache s x"
    using Cons.prems by (intro get_merchant_info_cache_other) auto
  have hd: "fst (get_merchant_info ext d s) = (case merchant_cache s d of Some v \<Rightarrow> v
             | None \<Rightarrow> (case search_ainvoke ext (search_question ext d) of Inr r \<Rightarrow> r | Inl e \<Rightarrow> ''Unknown''))"
    by (simp add: get_merchant_info_def Let_def split: option.splits sum.splits)
  have "fst (gather ext ds ?s1) = map (\<lambda>d. case merchant_cache ?s1 d of Some v \<Rightarrow> v
             | None \<Rightarrow> (case search_ainvoke ext (search_question ext d) of Inr r \<Rightarrow> r | Inl e \<Rightarrow> ''Unknown'')) ds"
    using Cons.prems by (intro Cons.IH) simp
  also have "\<dots> = map (\<lambda>d. case merchant_cache s d of Some v \<Rightarrow> v
             | None \<Rightarrow> (case search_ainvoke ext (search_question ext d) of Inr r \<Rightarrow> r | Inl e \<Rightarrow> ''Unknown'')) ds"
    by (rule map_cong) (simp_all add: same)
  finally show ?case
    by (simp add: gather_Cons hd del: gather.simps(2))
qed

lemma gather_calls:
  "distinct ds \<Longrightarrow> search_calls (snd (gather ext ds s)) =
     search_calls s @ map (search_question ext) (filter (\<lambda>d. merchant_cache s d = None) ds)"
proof (induction ds arbitrary: s)
  case Nil
  then show ?case by simp
next
  case (Cons d ds)
  let ?s1 = "snd (get_merchant_info ext d s)"
  have same: "\<And>x. x \<in> set ds \<Longrightarrow> merchant_cache ?s1 x = merchant_cache s x"
    using Cons.prems by (intro get_merchant_info_cache_other) auto
  have hd: "search_calls ?s1 = search_calls s @ (if merchant_cache s d = None then [search_question ext d] else [])"
    by (simp add: get_merchant_info_def Let_def split: option.splits sum.splits)
  have "search_calls (snd (gather ext ds ?s1)) =
     search_calls ?s1 @ map (search_question ext) (filter (\<lambda>d. merchant_cache ?s1 d = None) ds)"
    using Cons.prems by (intro Cons.IH) simp
  also have "filter (\<lambda>d. merchant_cache ?s1 d = None) ds = filter (\<lambda>d. merchant_cache s d = None) ds"
    by (rule filter_cong) (simp_all add: same)
  finally show ?case
    by (simp add: gather_Cons hd del: gather.simps(2))
qed

lemma gather_cache:
  "distinct ds \<Longrightarrow> merchant_cache (snd (gather ext ds s)) x =
     (if x \<in> set ds \<and> merchant_cache s x = None
      then (case search_ainvoke ext (search_question ext x) of Inr r \<Rightarrow> Some r | Inl e \<Rightarrow> None)
      else merchant_cache s x)"
proof (induction ds arbitrary: s)
  case Nil
  then show ?case by simp
next
  case (Cons d ds)
  let ?s1 = "snd (get_merchant_info ext d s)"
  have hd: "merchant_cache ?s1 d = (if merchant_cache s d = None
      then (case search_ainvoke ext (search_question ext d) of Inr r \<Rightarrow> Some r | Inl e \<Rightarrow> None)
      else merchant_cache s d)"
    by (simp add: get_merchant_info_def Let_def split: option.splits sum.splits)
  have ih: "merchant_cache (snd (gather ext ds ?s1)) x =
     (if x \<in> set ds \<and> merchant_cache ?s1 x = None
      then (case search_ainvoke ext (search_question ext x) of Inr r \<Rightarrow> Some r | Inl e \<Rightarrow> None)
      else merchant_cache ?s1 x)"
    using Cons.prems by (intro Cons.IH) simp
  show ?case
  proof (cases "x = d")
    case True
    with Cons.prems have "x \<notin> set ds" by simp
    with ih True hd show ?thesis
      by (simp add: gather_Cons del: gather.simps(2))
  next
    case False
    then have "merchant_cache ?s1 x = merchant_cache s x"
      by (rule get_merchant_info_cache_other)
    with ih False show ?thesis
      by (simp add: gather_Cons del: gather.simps(2))
  qed
qed

lemma enrich_parts:
  "fst (enrich ext descriptions s) = dict_of (zip (unique descriptions) (fst (gather ext (unique descriptions) s)))"
  "snd (enrich ext descriptions s) = snd (gather ext (unique descriptions) s)"
  by (simp_all add: enrich_def Let_def case_prod_unfold)

lemma enrich_map:
  "fst (enrich ext descriptions s) x =
     (if x \<in> set descriptions
      then Some (case merchant_cache s x of Some v \<Rightarrow> v
             | None \<Rightarrow> (case search_ainvoke ext (search_question ext x) of Inr r \<Rightarrow> r | Inl e \<Rightarrow> ''Unknown''))
      else None)"
  by (simp add: enrich_parts gather_results distinct_unique dict_of_zip_map set_unique)

lemma enrich_dom: "dom (fst (enrich ext descriptions s)) = set descriptions"
  by (auto simp: dom_def enrich_map)

lemma enrich_calls:
  "search_calls (snd (enrich ext descriptions s)) =
     search_calls s @ map (search_question ext) (filter (\<lambda>d. merchant_cache s d = None) (unique descriptions))"
  by (simp add: enrich_parts gather_calls distinct_unique)

lemma enrich_cache:
  "merchant_cache (snd (enrich ext descriptions s)) x =
     (if x \<in> set descriptions \<and> merchant_cache s x = None
      then (case search_ainvoke ext (search_question ext x) of Inr r \<Rightarrow> Some r | Inl e \<Rightarrow> None)
      else merchant_cache s x)"
  by (simp add: enrich_parts gather_cache distinct_unique set_unique)

lemma enrich_frame:
  "transactions (snd (enrich ext descriptions s)) = transactions s"
  "collections (snd (enrich ext descriptions s)) = collections s"
  by (simp_all add: enrich_parts gather_frame)

lemma count_misses:
  "length (filter P (unique xs)) = card {d \<in> set xs. P d}"
proof -
  have "distinct (filter P (unique xs))"
    by (simp add: distinct_unique)
  then have "card (set (filter P (unique xs))) = length (filter P (unique xs))"
    by (rule distinct_card)
  moreover have "set (filter P (unique xs)) = {d \<in> set xs. P d}"
    by (auto simp: set_unique)
  ultimately show ?thesis by simp
qed

text \<open>What a successful ingestion of one file did.\<close>

lemma ingest_success:
  assumes "MoneyRAG_ingest_csv ext file s = (Inr (), s')"
  shows "\<exists>m standard_df.
           chain_ainvoke ext (columns (frame file)) (head_df 10 (frame file)) (basename (file_path file)) = Inr m
         \<and> standardize ext file m (map (uuid4 ext) [uuids_drawn s ..< uuids_drawn s + len_df (frame file)]) = Inr standard_df
         \<and> table_rows s' = table_rows s
              @ attach_enrichment
                  (fst (enrich ext (map description standard_df) (s\<lparr>uuids_drawn := uuids_drawn s + len_df (frame file)\<rparr>)))
                  standard_df"
proof -
  let ?s1 = "s\<lparr>uuids_drawn := uuids_drawn s + len_df (frame file)\<rparr>"
  have "table_rows (snd (enrich ext ds ?s1)) = table_rows s" for ds
    by (simp add: table_rows_def enrich_frame)
  with assms show ?thesis
    by (auto simp: MoneyRAG_ingest_csv_def Let_def table_rows_append case_prod_unfold split: sum.splits)
qed

section \<open>The enrichment column\<close>

text \<open>
  C9. Every row that \<open>MoneyRAG._ingest_csv\<close> appends to the table has a string as its
  \<open>enriched_info\<close>, never a missing value: the field is the entry of the enrichment
  mapping at the row's description, and the empty string when the mapping has no such
  entry.
\<close>

theorem enriched_info_is_a_string:
  "(MoneyRAG_ingest_csv ext file s = (Inr (), s') \<longrightarrow>
      (\<exists>new. table_rows s' = table_rows s @ new \<and> length new = len_df (frame file)
           \<and> (\<forall>r \<in> set new. \<exists>e. enriched_info r = Some e)))
   \<and> map enriched_info (attach_enrichment desc_map rows)
       = map (\<lambda>r. Some (case desc_map (description r) of Some v \<Rightarrow> v | None \<Rightarrow> '''')) rows"
proof (intro conjI impI)
  assume ok: "MoneyRAG_ingest_csv ext file s = (Inr (), s')"
  let ?ids = "map (uuid4 ext) [uuids_drawn s ..< uuids_drawn s + len_df (frame file)]"
  from ingest_success [OF ok] obtain m standard_df dm where
    std: "standardize ext file m ?ids = Inr standard_df"
    and tab: "table_rows s' = table_rows s @ attach_enrichment dm standard_df"
    by auto
  have "length ?ids = len_df (frame file)" by simp
  with standardize_amounts [OF std] have len: "length standard_df = len_df (frame file)"
    by blast
  let ?new = "attach_enrichment dm standard_df"
  have "length ?new = len_df (frame file)"
    using len by (simp add: attach_enrichment_length)
  moreover have "\<forall>r \<in> set ?new. \<exists>e. enriched_info r = Some e"
  proof
    fix r assume "r \<in> set ?new"
    then have "enriched_info r \<in> set (map enriched_info ?new)" by simp
    then show "\<exists>e. enriched_info r = Some e"
      unfolding attach_enrichment_info by auto
  qed
  ultimately show "\<exists>new. table_rows s' = table_rows s @ new \<and> length new = len_df (frame file)
           \<and> (\<forall>r \<in> set new. \<exists>e. enriched_info r = Some e)"
    using tab by blast
next
  show "map enriched_info (attach_enrichment desc_map rows)
       = map (\<lambda>r. Some (case desc_map (description r) of Some v \<Rightarrow> v | None \<Rightarrow> '''')) rows"
    by (rule attach_enrichment_info)
qed

theorem enriched_info_is_a_string_witness:
  "map enriched_info (table_rows (snd (MoneyRAG_ingest_csv example_ext chase_file MoneyRAG_init)))
     = [Some ''Coffee shop'', Some ''Coffee shop'', Some ''Unknown'']
   \<and> list_all (\<lambda>r. \<exists>e. enriched_info r = Some e)
        (table_rows (snd (MoneyRAG_ingest_csv example_ext chase_file MoneyRAG_init)))
   \<and> map enriched_info
        (attach_enrichment [Str ''Starbucks'' \<mapsto> ''Coffee shop'']
           [\<lparr>txn_id = ''a'', transaction_date = ''2024-01-05'', description = Str ''Starbucks'',
             amount = Some 4, category = Str ''Uncategorized'', source_file = ''chase.csv''\<rparr>,
            \<lparr>txn_id = ''b'', transaction_date = ''2024-01-06'', description = Str ''Walmart'',
             amount = Some 9, category = Str ''Uncategorized'', source_file = ''chase.csv''\<rparr>])
     = [Some ''Coffee shop'', Some '''']"
proof -
  let ?s1 = "snd (MoneyRAG_ingest_csv example_ext chase_file MoneyRAG_init)"
  let ?rows = "[\<lparr>txn_id = ''a'', transaction_date = ''2024-01-05'', description = Str ''Starbucks'',
             amount = Some 4, category = Str ''Uncategorized'', source_file = ''chase.csv''\<rparr>,
            \<lparr>txn_id = ''b'', transaction_date = ''2024-01-06'', description = Str ''Walmart'',
             amount = Some 9, category = Str ''Uncategorized'', source_file = ''chase.csv''\<rparr>]"
  let ?dm = "[Str ''Starbucks'' \<mapsto> ''Coffee shop'']"
  have ok: "MoneyRAG_ingest_csv example_ext chase_file MoneyRAG_init = (Inr (), ?s1)"
    by (simp add: model_defs Let_def upt_rec)
  have empty: "table_rows MoneyRAG_init = []"
    by (simp add: model_defs)
  from ok enriched_info_is_a_string [of example_ext chase_file MoneyRAG_init ?s1] obtain new where
    "table_rows ?s1 = table_rows MoneyRAG_init @ new" "\<forall>r \<in> set new. \<exists>e. enriched_info r = Some e"
    by blast
  with empty have all: "list_all (\<lambda>r. \<exists>e. enriched_info r = Some e) (table_rows ?s1)"
    by (simp add: list_all_iff)
  have vals: "map enriched_info (table_rows ?s1) = [Some ''Coffee shop'', Some ''Coffee shop'', Some ''Unknown'']"
    by (simp add: model_defs Let_def upt_rec)
  have "map enriched_info (attach_enrichment ?dm ?rows)
       = map (\<lambda>r. Some (case ?dm (description r) of Some v \<Rightarrow> v | None \<Rightarrow> '''')) ?rows"
    using enriched_info_is_a_string [of ext f s s' ?dm ?rows] by blast
  then have absent: "map enriched_info (attach_enrichment ?dm ?rows) = [Some ''Coffee shop'', Some '''']"
    by simp
  from vals all absent show ?thesis by blast
qed

section \<open>The semaphore\<close>

lemmas batch_defs = advance_def init_batch_def six_merchants_def in_flight_def holds_slot_def
  search_question_def str_of_cell_def example_ext_def MoneyRAG_init_def startswith_def

lemma filter_update_count:
  "i < length xs \<Longrightarrow>
     length (filter P (xs[i := y])) + (if P (xs ! i) then 1 else 0)
       = length (filter P xs) + (if P y then 1 else 0)"
proof (induction xs arbitrary: i)
  case Nil
  then show ?case by simp
next
  case (Cons x xs)
  show ?case
  proof (cases i)
    case 0
    then show ?thesis by simp
  next
    case (Suc j)
    with Cons.prems have "j < length xs" by simp
    from Cons.IH [OF this] Suc show ?thesis by simp
  qed
qed

lemma in_flight_update:
  assumes "i < length (tasks b)" and "tasks b ! i = (d, t)"
  shows "in_flight (b\<lparr>tasks := (tasks b)[i := (d, t')]\<rparr>) + (if holds_slot t then 1 else 0)
           = in_flight b + (if holds_slot t' then 1 else 0)"
  using filter_update_count [OF assms(1), of "\<lambda>(d, t). holds_slot t" "(d, t')"] assms(2)
  by (simp add: in_flight_def)

lemma in_flight_fields [simp]:
  "in_flight (b\<lparr>sem_value := n\<rparr>) = in_flight b"
  "in_flight (b\<lparr>sess := s\<rparr>) = in_flight b"
  by (simp_all add: in_flight_def)

lemma step_slots:
  assumes "step ext b b'"
  shows "in_flight b + sem_value b = in_flight b' + sem_value b'"
  using assms
proof cases
  case (cache_hit i d v)
  with in_flight_update [of i b d NotStarted "Finished v"] show ?thesis
    by (simp add: holds_slot_def)
next
  case (cache_miss i d)
  with in_flight_update [of i b d NotStarted Waiting] show ?thesis
    by (simp add: holds_slot_def)
next
  case (acquire i d)
  with in_flight_update [of i b d Waiting Sleeping] show ?thesis
    by (simp add: holds_slot_def)
next
  case (wake i d)
  with in_flight_update [of i b d Sleeping Searching] show ?thesis
    by (simp add: holds_slot_def)
next
  case (search_returns i d r)
  with in_flight_update [of i b d Searching "Finished r"] show ?thesis
    by (simp add: holds_slot_def)
next
  case (search_raises i d e)
  with in_flight_update [of i b d Searching "Finished ''Unknown''"] show ?thesis
    by (simp add: holds_slot_def)
qed

lemma reachable_slots:
  "(step ext)\<^sup>*\<^sup>* b b' \<Longrightarrow> in_flight b' + sem_value b' = in_flight b + sem_value b"
  by (induction rule: rtranclp_induct) (simp_all add: step_slots)

lemma init_batch_slots: "in_flight (init_batch ds s) = 0" "sem_value (init_batch ds s) = 5"
  by (simp_all add: init_batch_def in_flight_def holds_slot_def filter_empty_conv)

lemma step_leaves_waiting:
  assumes "step ext b b'" and "i < length (tasks b)" and "snd (tasks b ! i) = Waiting"
    and "snd (tasks b' ! i) \<noteq> Waiting"
  shows "0 < sem_value b \<and> snd (tasks b' ! i) = Sleeping"
  using assms
  by cases (auto simp: nth_list_update split: if_splits)

lemma advance_step: "advance ext i b = b \<or> step ext b (advance ext i b)"
proof (cases "i < length (tasks b)")
  case False
  then show ?thesis by (simp add: advance_def)
next
  case True
  obtain d t where dt: "tasks b ! i = (d, t)" by (cases "tasks b ! i")
  show ?thesis
  proof (cases t)
    case NotStarted
    show ?thesis
    proof (cases "merchant_cache (sess b) d")
      case None
      with step.cache_miss [OF True dt [unfolded NotStarted]] True dt NotStarted show ?thesis
        by (simp add: advance_def)
    next
      case (Some v)
      with step.cache_hit [OF True dt [unfolded NotStarted]] True dt NotStarted show ?thesis
        by (simp add: advance_def)
    qed
  next
    case Waiting
    show ?thesis
    proof (cases "0 < sem_value b")
      case False
      with True dt Waiting show ?thesis by (simp add: advance_def)
    next
      case pos: True
      with step.acquire [OF True dt [unfolded Waiting]] True dt Waiting show ?thesis
        by (simp add: advance_def)
    qed
  next
    case Sleeping
    with step.wake [OF True dt [unfolded Sleeping]] True dt show ?thesis
      by (simp add: advance_def)
  next
    case Searching
    show ?thesis
    proof (cases "search_ainvoke ext (search_question ext d)")
      case (Inl e)
      with step.search_raises [OF True dt [unfolded Searching]] True dt Searching show ?thesis
        by (simp add: advance_def)
    next
      case (Inr r)
      with step.search_returns [OF True dt [unfolded Searching]] True dt Searching show ?thesis
        by (simp add: advance_def)
    qed
  next
    case (Finished r)
    with True dt show ?thesis by (simp add: advance_def)
  qed
qed

lemma run_reachable: "(step ext)\<^sup>*\<^sup>* b (run ext schedule b)"
proof (induction schedule arbitrary: b)
  case Nil
  then show ?case by simp
next
  case (Cons i schedule)
  from advance_step [of ext i b] have "(step ext)\<^sup>*\<^sup>* b (advance ext i b)"
    by auto
  with Cons.IH [of "advance ext i b"] show ?case
    by simp
qed

text \<open>
  C8, as amended. At every point of an enrichment batch at most five lookups are in
  flight, and the lookups in flight and the free slots of the semaphore add up to five,
  where five is the constant of line 123 and not a value that the session or the batch is
  given; a waiting lookup starts only at a point where fewer than five are in flight, so
  lookups beyond the bound wait until a slot is given back.
\<close>

theorem at_most_five_in_flight:
  "((step ext)\<^sup>*\<^sup>* (init_batch descriptions s) b \<longrightarrow> in_flight b \<le> 5 \<and> in_flight b + sem_value b = 5)
   \<and> ((step ext)\<^sup>*\<^sup>* (init_batch descriptions s) b \<and> step ext b b'
        \<and> i < length (tasks b) \<and> snd (tasks b ! i) = Waiting \<and> snd (tasks b' ! i) \<noteq> Waiting
       \<longrightarrow> in_flight b < 5 \<and> snd (tasks b' ! i) = Sleeping)"
proof (intro conjI impI)
  assume "(step ext)\<^sup>*\<^sup>* (init_batch descriptions s) b"
  from reachable_slots [OF this] have total: "in_flight b + sem_value b = 5"
    by (simp add: init_batch_slots)
  then show "in_flight b \<le> 5" by simp
  from total show "in_flight b + sem_value b = 5" .
next
  assume h: "(step ext)\<^sup>*\<^sup>* (init_batch descriptions s) b \<and> step ext b b'
        \<and> i < length (tasks b) \<and> snd (tasks b ! i) = Waiting \<and> snd (tasks b' ! i) \<noteq> Waiting"
  then have "(step ext)\<^sup>*\<^sup>* (init_batch descriptions s) b" by simp
  from reachable_slots [OF this] have total: "in_flight b + sem_value b = 5"
    by (simp add: init_batch_slots)
  from h step_leaves_waiting [of ext b b' i] have free: "0 < sem_value b \<and> snd (tasks b' ! i) = Sleeping"
    by blast
  with total show "in_flight b < 5" by simp
  from free show "snd (tasks b' ! i) = Sleeping" by simp
qed

theorem at_most_five_in_flight_witness:
  "(step example_ext)\<^sup>*\<^sup>* (init_batch six_merchants MoneyRAG_init)
        (run example_ext [0, 1, 2, 3, 4, 5, 0, 1, 2, 3, 4] (init_batch six_merchants MoneyRAG_init))
   \<and> step example_ext (run example_ext [0, 1, 2, 3, 4, 5, 0, 1, 2, 3] (init_batch six_merchants MoneyRAG_init))
        (run example_ext [0, 1, 2, 3, 4, 5, 0, 1, 2, 3, 4] (init_batch six_merchants MoneyRAG_init))
   \<and> snd (tasks (run example_ext [0, 1, 2, 3, 4, 5, 0, 1, 2, 3] (init_batch six_merchants MoneyRAG_init)) ! 4) = Waiting
   \<and> snd (tasks (run example_ext [0, 1, 2, 3, 4, 5, 0, 1, 2, 3, 4] (init_batch six_merchants MoneyRAG_init)) ! 4) = Sleeping
   \<and> in_flight (run example_ext [0, 1, 2, 3, 4, 5, 0, 1, 2, 3] (init_batch six_merchants MoneyRAG_init)) < 5
   \<and> in_flight (run example_ext [0, 1, 2, 3, 4, 5, 0, 1, 2, 3, 4] (init_batch six_merchants MoneyRAG_init)) \<le> 5
   \<and> in_flight (run example_ext [0, 1, 2, 3, 4, 5, 0, 1, 2, 3, 4] (init_batch six_merchants MoneyRAG_init))
      + sem_value (run example_ext [0, 1, 2, 3, 4, 5, 0, 1, 2, 3, 4] (init_batch six_merchants MoneyRAG_init)) = 5"
proof -
  let ?init = "init_batch six_merchants MoneyRAG_init"
  let ?b = "run example_ext [0, 1, 2, 3, 4, 5, 0, 1, 2, 3] ?init"
  let ?b' = "run example_ext [0, 1, 2, 3, 4, 5, 0, 1, 2, 3, 4] ?init"
  have reach: "(step example_ext)\<^sup>*\<^sup>* ?init ?b" "(step example_ext)\<^sup>*\<^sup>* ?init ?b'"
    by (rule run_reachable)+
  have next_state: "?b' = advance example_ext 4 ?b"
    by (simp add: batch_defs)
  have before: "map snd (tasks ?b) = [Sleeping, Sleeping, Sleeping, Sleeping, Waiting, Waiting]"
    by (simp add: batch_defs)
  have after: "map snd (tasks ?b') = [Sleeping, Sleeping, Sleeping, Sleeping, Sleeping, Waiting]"
    by (simp add: batch_defs)
  have "map snd (tasks ?b') \<noteq> map snd (tasks ?b)"
    unfolding before after by simp
  then have "?b' \<noteq> ?b" by metis
  with advance_step [of example_ext 4 ?b] have move: "step example_ext ?b ?b'"
    unfolding next_state by blast
  have len: "4 < length (tasks ?b)"
    by (simp add: batch_defs)
  have w: "snd (tasks ?b ! 4) = Waiting"
    by (simp add: batch_defs)
  have sl: "snd (tasks ?b' ! 4) = Sleeping"
    by (simp add: batch_defs)
  from sl have nw: "snd (tasks ?b' ! 4) \<noteq> Waiting" by simp
  from reach(1) move len w nw at_most_five_in_flight [of example_ext six_merchants MoneyRAG_init ?b ?b' 4]
  have one: "in_flight ?b < 5" by blast
  from reach(2) at_most_five_in_flight [of example_ext six_merchants MoneyRAG_init ?b']
  have two: "in_flight ?b' \<le> 5 \<and> in_flight ?b' + sem_value ?b' = 5" by blast
  from reach(2) move w sl one two show ?thesis by blast
qed

text \<open>
  The claim as stated fails where it calls the bound a configuration value: the semaphore
  of every batch starts at five, whatever the session was built with. With the session and
  the externals of the example, which set no bound, a batch of six descriptions reaches
  five lookups in flight while the sixth waits.
\<close>

theorem semaphore_bound_is_fixed_counterexample:
  "sem_value (init_batch six_merchants MoneyRAG_init) = 5
   \<and> (step example_ext)\<^sup>*\<^sup>* (init_batch six_merchants MoneyRAG_init)
        (run example_ext [0, 1, 2, 3, 4, 5, 0, 1, 2, 3, 4, 5] (init_batch six_merchants MoneyRAG_init))
   \<and> map snd (tasks (run example_ext [0, 1, 2, 3, 4, 5, 0, 1, 2, 3, 4, 5] (init_batch six_merchants MoneyRAG_init)))
        = [Sleeping, Sleeping, Sleeping, Sleeping, Sleeping, Waiting]
   \<and> in_flight (run example_ext [0, 1, 2, 3, 4, 5, 0, 1, 2, 3, 4, 5] (init_batch six_merchants MoneyRAG_init)) = 5"
proof -
  have "sem_value (init_batch six_merchants MoneyRAG_init) = 5"
    by (simp add: init_batch_def)
  moreover have "map snd (tasks (run example_ext [0, 1, 2, 3, 4, 5, 0, 1, 2, 3, 4, 5] (init_batch six_merchants MoneyRAG_init)))
        = [Sleeping, Sleeping, Sleeping, Sleeping, Sleeping, Waiting]"
    by (simp add: batch_defs)
  moreover have "in_flight (run example_ext [0, 1, 2, 3, 4, 5, 0, 1, 2, 3, 4, 5] (init_batch six_merchants MoneyRAG_init)) = 5"
    by (simp add: batch_defs)
  ultimately show ?thesis
    using run_reachable [of example_ext "init_batch six_merchants MoneyRAG_init" "[0, 1, 2, 3, 4, 5, 0, 1, 2, 3, 4, 5]"]
    by blast
qed

section \<open>The batch under every schedule\<close>

lemma map_fst_update:
  "i < length xs \<Longrightarrow> xs ! i = (d, t) \<Longrightarrow> map fst (xs[i := (d, t')]) = map fst xs"
  by (metis fst_conv list_update_id map_update)

lemma other_key:
  assumes "distinct (map fst xs)" and "i < length xs" and "j < length xs" and "j \<noteq> i"
  shows "fst (xs ! j) \<noteq> fst (xs ! i)"
  using assms by (metis length_map nth_eq_iff_index_eq nth_map)

lemma batch_inv_init: "batch_inv ext (unique descriptions) s (init_batch descriptions s)"
  by (simp add: batch_inv_def init_batch_def task_ok_def called_def is_finished_def comp_def filter_empty_conv)

text \<open>A step of the task at position \<open>i\<close> that leaves the cache and the calls alone.\<close>

lemma batch_inv_task_only:
  assumes inv: "batch_inv ext ds s b" and i: "i < length (tasks b)" and at: "tasks b ! i = (d, t)"
    and ok: "task_ok ext (merchant_cache s) (merchant_cache (sess b)) (d, t')"
    and same: "called (merchant_cache s) (d, t') = called (merchant_cache s) (d, t)"
  shows "batch_inv ext ds s (b\<lparr>tasks := (tasks b)[i := (d, t')]\<rparr>)"
    and "batch_inv ext ds s (b\<lparr>tasks := (tasks b)[i := (d, t')], sem_value := n\<rparr>)"
proof -
  have cnt: "length (filter (called (merchant_cache s)) ((tasks b)[i := (d, t')]))
      = length (filter (called (merchant_cache s)) (tasks b))"
    using filter_update_count [OF i, of "called (merchant_cache s)" "(d, t')"] at same by simp
  have "\<forall>j < length (tasks b). task_ok ext (merchant_cache s) (merchant_cache (sess b)) ((tasks b)[i := (d, t')] ! j)"
    using inv ok i by (simp add: batch_inv_def nth_list_update)
  with inv cnt map_fst_update [OF i at] show "batch_inv ext ds s (b\<lparr>tasks := (tasks b)[i := (d, t')]\<rparr>)"
    and "batch_inv ext ds s (b\<lparr>tasks := (tasks b)[i := (d, t')], sem_value := n\<rparr>)"
    by (simp_all add: batch_inv_def)
qed

lemma step_batch_inv:
  assumes st: "step ext b b'" and inv: "batch_inv ext ds s b" and dist: "distinct ds"
  shows "batch_inv ext ds s b'"
  using st
proof cases
  case (cache_hit i d v)
  from inv cache_hit have old: "task_ok ext (merchant_cache s) (merchant_cache (sess b)) (d, NotStarted)"
    by (auto simp: batch_inv_def)
  then have c0: "merchant_cache s d = Some v"
    using cache_hit by (simp add: task_ok_def)
  have "task_ok ext (merchant_cache s) (merchant_cache (sess b)) (d, Finished v)"
    using c0 cache_hit by (simp add: task_ok_def answer_of_def entry_after_def)
  moreover have "called (merchant_cache s) (d, Finished v) = called (merchant_cache s) (d, NotStarted)"
    using c0 by (simp add: called_def is_finished_def)
  ultimately show ?thesis
    using batch_inv_task_only(1) [OF inv cache_hit(2,3)] cache_hit(1) by simp
next
  case (cache_miss i d)
  from inv cache_miss have old: "task_ok ext (merchant_cache s) (merchant_cache (sess b)) (d, NotStarted)"
    by (auto simp: batch_inv_def)
  then have c0: "merchant_cache s d = None"
    using cache_miss by (simp add: task_ok_def)
  have "task_ok ext (merchant_cache s) (merchant_cache (sess b)) (d, Waiting)"
    using c0 cache_miss by (simp add: task_ok_def)
  moreover have "called (merchant_cache s) (d, Waiting) = called (merchant_cache s) (d, NotStarted)"
    by (simp add: called_def is_finished_def)
  ultimately show ?thesis
    using batch_inv_task_only(1) [OF inv cache_miss(2,3)] cache_miss(1) by simp
next
  case (acquire i d)
  from inv acquire have old: "task_ok ext (merchant_cache s) (merchant_cache (sess b)) (d, Waiting)"
    by (auto simp: batch_inv_def)
  then have "task_ok ext (merchant_cache s) (merchant_cache (sess b)) (d, Sleeping)"
    by (simp add: task_ok_def)
  moreover have "called (merchant_cache s) (d, Sleeping) = called (merchant_cache s) (d, Waiting)"
    by (simp add: called_def is_finished_def)
  ultimately show ?thesis
    using batch_inv_task_only(2) [OF inv acquire(2,3)] acquire(1) by simp
next
  case (wake i d)
  from inv wake have old: "task_ok ext (merchant_cache s) (merchant_cache (sess b)) (d, Sleeping)"
    by (auto simp: batch_inv_def)
  have cnt: "length (filter (called (merchant_cache s)) ((tasks b)[i := (d, Searching)]))
      = Suc (length (filter (called (merchant_cache s)) (tasks b)))"
    using filter_update_count [OF wake(2), of "called (merchant_cache s)" "(d, Searching)"] wake(3)
    by (simp add: called_def is_finished_def)
  have "\<forall>j < length (tasks b). task_ok ext (merchant_cache s) (merchant_cache (sess b)) ((tasks b)[i := (d, Searching)] ! j)"
    using inv old wake(2) by (simp add: batch_inv_def nth_list_update task_ok_def)
  with inv cnt map_fst_update [OF wake(2,3)] show ?thesis
    unfolding wake(1) by (simp add: batch_inv_def)
next
  case (search_returns i d r)
  from inv search_returns have old: "task_ok ext (merchant_cache s) (merchant_cache (sess b)) (d, Searching)"
    by (auto simp: batch_inv_def)
  then have c0: "merchant_cache s d = None" by (simp add: task_ok_def)
  have keys: "map fst (tasks b) = ds" using inv by (simp add: batch_inv_def)
  have cnt: "length (filter (called (merchant_cache s)) ((tasks b)[i := (d, Finished r)]))
      = length (filter (called (merchant_cache s)) (tasks b))"
    using filter_update_count [OF search_returns(2), of "called (merchant_cache s)" "(d, Finished r)"]
      search_returns(3) c0
    by (simp add: called_def is_finished_def)
  have "task_ok ext (merchant_cache s) ((merchant_cache (sess b))(d \<mapsto> r)) ((tasks b)[i := (d, Finished r)] ! j)"
    if j: "j < length (tasks b)" for j
  proof (cases "j = i")
    case True
    with j c0 search_returns(4) show ?thesis
      by (simp add: task_ok_def answer_of_def entry_after_def)
  next
    case False
    from other_key [OF _ search_returns(2) j False] dist keys search_returns(3)
    have "fst (tasks b ! j) \<noteq> d" by simp
    moreover from inv j have "task_ok ext (merchant_cache s) (merchant_cache (sess b)) (tasks b ! j)"
      by (simp add: batch_inv_def)
    ultimately show ?thesis
      using False by (cases "tasks b ! j") (auto simp: task_ok_def split: task_state.splits)
  qed
  moreover have "d \<in> set ds"
    using keys search_returns(2,3) by (metis fst_conv length_map nth_map nth_mem)
  ultimately show ?thesis
    using inv cnt map_fst_update [OF search_returns(2,3)]
    unfolding search_returns(1) by (auto simp: batch_inv_def)
next
  case (search_raises i d e)
  from inv search_raises have old: "task_ok ext (merchant_cache s) (merchant_cache (sess b)) (d, Searching)"
    by (auto simp: batch_inv_def)
  then have c0: "merchant_cache s d = None" by (simp add: task_ok_def)
  have "task_ok ext (merchant_cache s) (merchant_cache (sess b)) (d, Finished ''Unknown'')"
    using old c0 search_raises(4) by (simp add: task_ok_def answer_of_def entry_after_def)
  moreover have "called (merchant_cache s) (d, Finished ''Unknown'') = called (merchant_cache s) (d, Searching)"
    using c0 by (simp add: called_def is_finished_def)
  ultimately show ?thesis
    using batch_inv_task_only(2) [OF inv search_raises(2,3)] search_raises(1) by simp
qed

lemma reachable_batch_inv:
  "(step ext)\<^sup>*\<^sup>* (init_batch descriptions s) b \<Longrightarrow> batch_inv ext (unique descriptions) s b"
  by (induction rule: rtranclp_induct)
     (auto intro: batch_inv_init step_batch_inv distinct_unique)

lemma gather_is_answers:
  "distinct ds \<Longrightarrow> fst (gather ext ds s) = map (answer_of ext (merchant_cache s)) ds"
  by (simp add: gather_results answer_of_def)

lemma gather_cache_entry:
  "distinct ds \<Longrightarrow> merchant_cache (snd (gather ext ds s)) x =
     (if x \<in> set ds then entry_after ext (merchant_cache s) x else merchant_cache s x)"
  by (simp add: gather_cache entry_after_def split: option.splits)

lemma finished_results:
  assumes inv: "batch_inv ext ds s b" and fin: "finished b"
  shows "results b = map (answer_of ext (merchant_cache s)) ds"
proof (rule nth_equalityI)
  from inv have keys: "map fst (tasks b) = ds" by (simp add: batch_inv_def)
  then have len: "length (tasks b) = length ds" by (metis length_map)
  then show "length (results b) = length (map (answer_of ext (merchant_cache s)) ds)"
    by (simp add: results_def)
  fix j assume "j < length (results b)"
  then have j: "j < length (tasks b)" by (simp add: results_def)
  obtain d t where dt: "tasks b ! j = (d, t)" by (cases "tasks b ! j")
  from fin j dt have "is_finished t"
    by (auto simp: finished_def list_all_length)
  then obtain r where r: "t = Finished r"
    by (cases t) (simp_all add: is_finished_def)
  from inv j dt r have "r = answer_of ext (merchant_cache s) d"
    by (auto simp: batch_inv_def task_ok_def)
  moreover from keys j dt have "ds ! j = d"
    by (metis fst_conv nth_map)
  ultimately show "results b ! j = map (answer_of ext (merchant_cache s)) ds ! j"
    using j dt r len by (simp add: results_def)
qed

lemma finished_cache:
  assumes inv: "batch_inv ext ds s b" and fin: "finished b"
  shows "merchant_cache (sess b) x = (if x \<in> set ds then entry_after ext (merchant_cache s) x else merchant_cache s x)"
proof (cases "x \<in> set ds")
  case False
  with inv show ?thesis by (simp add: batch_inv_def)
next
  case True
  from inv have keys: "map fst (tasks b) = ds" by (simp add: batch_inv_def)
  with True obtain j where j: "j < length (tasks b)" and x: "fst (tasks b ! j) = x"
    by (metis in_set_conv_nth length_map nth_map)
  obtain t where dt: "tasks b ! j = (x, t)" using x by (cases "tasks b ! j") simp
  from fin j dt have "is_finished t"
    by (auto simp: finished_def list_all_length)
  then obtain r where r: "t = Finished r"
    by (cases t) (simp_all add: is_finished_def)
  from inv j dt r have "merchant_cache (sess b) x = entry_after ext (merchant_cache s) x"
    by (auto simp: batch_inv_def task_ok_def)
  with True show ?thesis by simp
qed

lemma finished_calls:
  assumes inv: "batch_inv ext ds s b" and fin: "finished b"
  shows "length (search_calls (sess b))
     = length (search_calls s) + length (filter (\<lambda>d. merchant_cache s d = None) ds)"
proof -
  from inv have keys: "map fst (tasks b) = ds" by (simp add: batch_inv_def)
  have "filter (called (merchant_cache s)) (tasks b)
      = filter (\<lambda>dt. merchant_cache s (fst dt) = None) (tasks b)"
  proof (rule filter_cong)
    fix dt assume "dt \<in> set (tasks b)"
    with fin have "is_finished (snd dt)"
      by (auto simp: finished_def list_all_iff)
    then show "called (merchant_cache s) dt = (merchant_cache s (fst dt) = None)"
      by (cases dt) (auto simp: called_def is_finished_def split: task_state.splits)
  qed simp
  then have "length (filter (called (merchant_cache s)) (tasks b))
      = length (filter (\<lambda>d. merchant_cache s d = None) (map fst (tasks b)))"
    by (simp add: filter_map comp_def)
  with inv keys show ?thesis by (simp add: batch_inv_def)
qed

text \<open>
  Every run of the tasks that ends with all tasks returned gives the results, the cache
  and the number of searches of \<open>gather\<close>, whatever the order of the steps was.
\<close>

lemma schedule_independence:
  assumes run: "(step ext)\<^sup>*\<^sup>* (init_batch descriptions s) b" and fin: "finished b"
  shows "results b = fst (gather ext (unique descriptions) s)"
    and "merchant_cache (sess b) = merchant_cache (snd (gather ext (unique descriptions) s))"
    and "length (search_calls (sess b)) = length (search_calls (snd (gather ext (unique descriptions) s)))"
    and "transactions (sess b) = transactions (snd (gather ext (unique descriptions) s))"
proof -
  note inv = reachable_batch_inv [OF run]
  show "results b = fst (gather ext (unique descriptions) s)"
    by (simp add: finished_results [OF inv fin] gather_is_answers distinct_unique)
  show "merchant_cache (sess b) = merchant_cache (snd (gather ext (unique descriptions) s))"
    by (rule ext) (simp add: finished_cache [OF inv fin] gather_cache_entry distinct_unique)
  show "length (search_calls (sess b)) = length (search_calls (snd (gather ext (unique descriptions) s)))"
    by (simp add: finished_calls [OF inv fin] gather_calls distinct_unique)
  from inv show "transactions (sess b) = transactions (snd (gather ext (unique descriptions) s))"
    by (simp add: batch_inv_def gather_frame)
qed

text \<open>
  The batch completes: while a task has not returned some task can take a step, and every
  step uses up work, so no run takes more than four steps for each task.
\<close>

lemma no_deadlock:
  assumes run: "(step ext)\<^sup>*\<^sup>* (init_batch descriptions s) b" and open_task: "\<not> finished b"
  shows "\<exists>b'. step ext b b'"
proof -
  from open_task obtain i d t where i: "i < length (tasks b)" and dt: "tasks b ! i = (d, t)"
    and nf: "\<not> is_finished t"
    by (auto simp: finished_def list_all_length)
  have slots: "in_flight b + sem_value b = 5"
    using reachable_slots [OF run] by (simp add: init_batch_slots)
  show ?thesis
  proof (cases t)
    case NotStarted
    with i dt show ?thesis
      by (cases "merchant_cache (sess b) d") (blast intro: step.cache_miss step.cache_hit)+
  next
    case Sleeping
    with i dt show ?thesis by (blast intro: step.wake)
  next
    case Searching
    with i dt show ?thesis
      by (cases "search_ainvoke ext (search_question ext d)")
         (blast intro: step.search_raises step.search_returns)+
  next
    case (Finished r)
    with nf show ?thesis by (simp add: is_finished_def)
  next
    case Waiting
    show ?thesis
    proof (cases "0 < sem_value b")
      case True
      with i dt Waiting show ?thesis by (blast intro: step.acquire)
    next
      case False
      with slots have "in_flight b \<noteq> 0" by simp
      then have "filter (\<lambda>(d, t). holds_slot t) (tasks b) \<noteq> []"
        by (simp add: in_flight_def)
      then obtain d' t' where mem: "(d', t') \<in> set (tasks b)" and hs: "holds_slot t'"
        by (auto simp: filter_empty_conv)
      then obtain j where j: "j < length (tasks b)" and at: "tasks b ! j = (d', t')"
        by (auto simp: in_set_conv_nth)
      from hs show ?thesis
        unfolding holds_slot_def
      proof
        assume "t' = Sleeping"
        with j at show ?thesis by (blast intro: step.wake)
      next
        assume "t' = Searching"
        with j at show ?thesis
          by (cases "search_ainvoke ext (search_question ext d')")
             (blast intro: step.search_raises step.search_returns)+
      qed
    qed
  qed
qed

lemma sum_list_update:
  "i < length xs \<Longrightarrow> sum_list (map f (xs[i := y])) + f (xs ! i) = sum_list (map f xs) + (f y :: nat)"
proof (induction xs arbitrary: i)
  case Nil
  then show ?case by simp
next
  case (Cons x xs)
  show ?case
  proof (cases i)
    case 0
    then show ?thesis by simp
  next
    case (Suc j)
    with Cons.prems have "j < length xs" by simp
    from Cons.IH [OF this] Suc show ?thesis by simp
  qed
qed

lemma work_left_update:
  assumes "i < length (tasks b)" and "tasks b ! i = (d, t)"
  shows "work_left (b\<lparr>tasks := (tasks b)[i := (d, t')]\<rparr>) + remaining t = work_left b + remaining t'"
  using sum_list_update [OF assms(1), of "\<lambda>(d, t). remaining t" "(d, t')"] assms(2)
  by (simp add: work_left_def)

lemma work_left_fields [simp]:
  "work_left (b\<lparr>sem_value := n\<rparr>) = work_left b"
  "work_left (b\<lparr>sess := s\<rparr>) = work_left b"
  by (simp_all add: work_left_def)

lemma step_work_left:
  assumes "step ext b b'"
  shows "work_left b' < work_left b"
  using assms
proof cases
  case (cache_hit i d v)
  with work_left_update [of i b d NotStarted "Finished v"] show ?thesis
    by (simp add: remaining_def)
next
  case (cache_miss i d)
  with work_left_update [of i b d NotStarted Waiting] show ?thesis
    by (simp add: remaining_def)
next
  case (acquire i d)
  with work_left_update [of i b d Waiting Sleeping] show ?thesis
    by (simp add: remaining_def)
next
  case (wake i d)
  with work_left_update [of i b d Sleeping Searching] show ?thesis
    by (simp add: remaining_def)
next
  case (search_returns i d r)
  with work_left_update [of i b d Searching "Finished r"] show ?thesis
    by (simp add: remaining_def)
next
  case (search_raises i d e)
  with work_left_update [of i b d Searching "Finished ''Unknown''"] show ?thesis
    by (simp add: remaining_def)
qed

lemma work_left_init: "work_left (init_batch descriptions s) = 4 * length (unique descriptions)"
  by (simp add: work_left_def init_batch_def remaining_def comp_def sum_list_triv)

lemma runs_are_short:
  "(step ext ^^ n) (init_batch descriptions s) b \<Longrightarrow> n + work_left b \<le> 4 * length (unique descriptions)"
proof (induction n arbitrary: b)
  case 0
  then have "b = init_batch descriptions s" by simp
  then show ?case by (simp add: work_left_init)
next
  case (Suc n)
  then obtain m where "(step ext ^^ n) (init_batch descriptions s) m" and "step ext m b"
    by auto
  with Suc.IH [of m] step_work_left [of ext m b] show ?case by simp
qed

text \<open>The dictionary built from the results of a complete run is the one of \<open>enrich\<close>.\<close>

lemma run_desc_map:
  assumes "(step ext)\<^sup>*\<^sup>* (init_batch descriptions s) b" and "finished b"
  shows "dict_of (zip (unique descriptions) (results b)) = fst (enrich ext descriptions s)"
  using schedule_independence(1) [OF assms] by (simp add: enrich_parts)

lemmas run_defs = advance_def init_batch_def in_flight_def holds_slot_def finished_def is_finished_def
  results_def search_question_def str_of_cell_def example_ext_def MoneyRAG_init_def startswith_def

section \<open>A lookup that fails\<close>

text \<open>
  C3, as amended. When the web search raises for a description of the batch that is not
  in the cache, the batch still gives a result for every description, the result for that
  description is \<open>Unknown\<close>, and the session cache is left without an entry for it (so a
  later batch searches for it again). This holds of the batch run task by task and of
  every run of its tasks that the event loop can produce; such a run can always go on
  until every task has returned; and no failure of a search makes the ingestion of the
  file fail.
\<close>

theorem failed_lookup_is_not_cached:
  "(d \<in> set descriptions \<and> merchant_cache s d = None
      \<and> search_ainvoke ext (search_question ext d) = Inl e
     \<longrightarrow> dom (fst (enrich ext descriptions s)) = set descriptions
         \<and> fst (enrich ext descriptions s) d = Some ''Unknown''
         \<and> merchant_cache (snd (enrich ext descriptions s)) d = None)
   \<and> ((step ext)\<^sup>*\<^sup>* (init_batch descriptions s) b \<and> finished b
      \<and> d \<in> set descriptions \<and> merchant_cache s d = None
      \<and> search_ainvoke ext (search_question ext d) = Inl e
     \<longrightarrow> dom (dict_of (zip (unique descriptions) (results b))) = set descriptions
         \<and> dict_of (zip (unique descriptions) (results b)) d = Some ''Unknown''
         \<and> merchant_cache (sess b) d = None)
   \<and> ((step ext)\<^sup>*\<^sup>* (init_batch descriptions s) b \<and> \<not> finished b \<longrightarrow> (\<exists>b'. step ext b b'))
   \<and> (chain_ainvoke ext (columns (frame file)) (head_df 10 (frame file)) (basename (file_path file)) = Inr m
      \<and> standardize ext file m (map (uuid4 ext) [uuids_drawn s ..< uuids_drawn s + len_df (frame file)]) = Inr standard_df
     \<longrightarrow> fst (MoneyRAG_ingest_csv ext file s) = Inr ())"
proof -
  have seq: "dom (fst (enrich ext descriptions s)) = set descriptions
         \<and> fst (enrich ext descriptions s) d = Some ''Unknown''
         \<and> merchant_cache (snd (enrich ext descriptions s)) d = None"
    if "d \<in> set descriptions \<and> merchant_cache s d = None
      \<and> search_ainvoke ext (search_question ext d) = Inl e"
    using that by (simp add: enrich_dom enrich_map enrich_cache)
  have any: "dom (dict_of (zip (unique descriptions) (results b))) = set descriptions
         \<and> dict_of (zip (unique descriptions) (results b)) d = Some ''Unknown''
         \<and> merchant_cache (sess b) d = None"
    if h: "(step ext)\<^sup>*\<^sup>* (init_batch descriptions s) b \<and> finished b
      \<and> d \<in> set descriptions \<and> merchant_cache s d = None
      \<and> search_ainvoke ext (search_question ext d) = Inl e"
  proof -
    from h have run: "(step ext)\<^sup>*\<^sup>* (init_batch descriptions s) b" and fin: "finished b"
      by simp_all
    have "merchant_cache (sess b) = merchant_cache (snd (enrich ext descriptions s))"
      using schedule_independence(2) [OF run fin] by (simp add: enrich_parts)
    with run_desc_map [OF run fin] seq h show ?thesis by simp
  qed
  have live: "\<exists>b'. step ext b b'"
    if "(step ext)\<^sup>*\<^sup>* (init_batch descriptions s) b \<and> \<not> finished b"
    using that no_deadlock [of ext descriptions s b] by blast
  have ingest: "fst (MoneyRAG_ingest_csv ext file s) = Inr ()"
    if "chain_ainvoke ext (columns (frame file)) (head_df 10 (frame file)) (basename (file_path file)) = Inr m
      \<and> standardize ext file m (map (uuid4 ext) [uuids_drawn s ..< uuids_drawn s + len_df (frame file)]) = Inr standard_df"
    using that by (simp add: MoneyRAG_ingest_csv_def Let_def case_prod_unfold)
  from seq any live ingest show ?thesis by blast
qed

theorem failed_lookup_is_not_cached_witness:
  "Str ''Walmart'' \<in> set [Str ''Starbucks'', Str ''Starbucks'', Str ''Walmart'']
   \<and> dom (fst (enrich example_ext [Str ''Starbucks'', Str ''Starbucks'', Str ''Walmart''] MoneyRAG_init))
        = set [Str ''Starbucks'', Str ''Starbucks'', Str ''Walmart'']
   \<and> fst (enrich example_ext [Str ''Starbucks'', Str ''Starbucks'', Str ''Walmart''] MoneyRAG_init) (Str ''Walmart'')
        = Some ''Unknown''
   \<and> merchant_cache (snd (enrich example_ext [Str ''Starbucks'', Str ''Starbucks'', Str ''Walmart''] MoneyRAG_init))
        (Str ''Walmart'') = None
   \<and> finished (run example_ext [1, 0, 1, 0, 1, 0, 1, 0]
        (init_batch [Str ''Starbucks'', Str ''Starbucks'', Str ''Walmart''] MoneyRAG_init))
   \<and> dict_of (zip (unique [Str ''Starbucks'', Str ''Starbucks'', Str ''Walmart''])
        (results (run example_ext [1, 0, 1, 0, 1, 0, 1, 0]
           (init_batch [Str ''Starbucks'', Str ''Starbucks'', Str ''Walmart''] MoneyRAG_init)))) (Str ''Walmart'')
        = Some ''Unknown''
   \<and> merchant_cache (sess (run example_ext [1, 0, 1, 0, 1, 0, 1, 0]
        (init_batch [Str ''Starbucks'', Str ''Starbucks'', Str ''Walmart''] MoneyRAG_init))) (Str ''Walmart'') = None
   \<and> \<not> finished (run example_ext [1, 0, 1, 0, 1, 0]
        (init_batch [Str ''Starbucks'', Str ''Starbucks'', Str ''Walmart''] MoneyRAG_init))
   \<and> (\<exists>b'. step example_ext (run example_ext [1, 0, 1, 0, 1, 0]
        (init_batch [Str ''Starbucks'', Str ''Starbucks'', Str ''Walmart''] MoneyRAG_init)) b')
   \<and> fst (MoneyRAG_ingest_csv example_ext chase_file MoneyRAG_init) = Inr ()"
proof -
  let ?ds = "[Str ''Starbucks'', Str ''Starbucks'', Str ''Walmart'']"
  let ?done = "run example_ext [1, 0, 1, 0, 1, 0, 1, 0] (init_batch ?ds MoneyRAG_init)"
  let ?mid = "run example_ext [1, 0, 1, 0, 1, 0] (init_batch ?ds MoneyRAG_init)"
  let ?err = "OtherError ''rate limited''"
  have h: "Str ''Walmart'' \<in> set ?ds \<and> merchant_cache MoneyRAG_init (Str ''Walmart'') = None
      \<and> search_ainvoke example_ext (search_question example_ext (Str ''Walmart'')) = Inl ?err"
    by (simp add: model_defs)
  with failed_lookup_is_not_cached [of "Str ''Walmart''" ?ds MoneyRAG_init example_ext ?err]
  have one: "dom (fst (enrich example_ext ?ds MoneyRAG_init)) = set ?ds
         \<and> fst (enrich example_ext ?ds MoneyRAG_init) (Str ''Walmart'') = Some ''Unknown''
         \<and> merchant_cache (snd (enrich example_ext ?ds MoneyRAG_init)) (Str ''Walmart'') = None"
    by blast
  have reach: "(step example_ext)\<^sup>*\<^sup>* (init_batch ?ds MoneyRAG_init) ?done"
      "(step example_ext)\<^sup>*\<^sup>* (init_batch ?ds MoneyRAG_init) ?mid"
    by (rule run_reachable)+
  have fin: "finished ?done"
    by (simp add: run_defs)
  from reach(1) fin h
    failed_lookup_is_not_cached [of "Str ''Walmart''" ?ds MoneyRAG_init example_ext ?err ?done]
  have two: "dict_of (zip (unique ?ds) (results ?done)) (Str ''Walmart'') = Some ''Unknown''
         \<and> merchant_cache (sess ?done) (Str ''Walmart'') = None"
    by blast
  have unfin: "\<not> finished ?mid"
    by (simp add: run_defs)
  from reach(2) unfin
    failed_lookup_is_not_cached [of "Str ''Walmart''" ?ds MoneyRAG_init example_ext ?err ?mid]
  have three: "\<exists>b'. step example_ext ?mid b'"
    by blast
  have "\<exists>standard_df. chain_ainvoke example_ext (columns (frame chase_file)) (head_df 10 (frame chase_file))
          (basename (file_path chase_file)) = Inr (example_mapping ''spending_is_negative'')
      \<and> standardize example_ext chase_file (example_mapping ''spending_is_negative'')
          (map (uuid4 example_ext) [uuids_drawn MoneyRAG_init ..< uuids_drawn MoneyRAG_init + len_df (frame chase_file)])
          = Inr standard_df"
    by (simp add: model_defs Let_def upt_rec)
  then obtain standard_df where "chain_ainvoke example_ext (columns (frame chase_file)) (head_df 10 (frame chase_file))
          (basename (file_path chase_file)) = Inr (example_mapping ''spending_is_negative'')
      \<and> standardize example_ext chase_file (example_mapping ''spending_is_negative'')
          (map (uuid4 example_ext) [uuids_drawn MoneyRAG_init ..< uuids_drawn MoneyRAG_init + len_df (frame chase_file)])
          = Inr standard_df"
    by blast
  with failed_lookup_is_not_cached [of d ds MoneyRAG_init example_ext e b chase_file
      "example_mapping ''spending_is_negative''" standard_df]
  have four: "fst (MoneyRAG_ingest_csv example_ext chase_file MoneyRAG_init) = Inr ()"
    by blast
  from h one fin two unfin three four show ?thesis by blast
qed

text \<open>
  The claim as stated fails where it says that \<open>Unknown\<close> is recorded in the cache: after
  the batch the cache has no entry for the description whose search failed.
\<close>

theorem failed_lookup_is_cached_counterexample:
  "merchant_cache MoneyRAG_init (Str ''Walmart'') = None
   \<and> search_ainvoke example_ext (search_question example_ext (Str ''Walmart'')) = Inl (OtherError ''rate limited'')
   \<and> fst (enrich example_ext [Str ''Starbucks'', Str ''Starbucks'', Str ''Walmart''] MoneyRAG_init) (Str ''Walmart'')
        = Some ''Unknown''
   \<and> merchant_cache (snd (enrich example_ext [Str ''Starbucks'', Str ''Starbucks'', Str ''Walmart''] MoneyRAG_init))
        (Str ''Walmart'') = None
   \<and> merchant_cache (snd (enrich example_ext [Str ''Starbucks'', Str ''Starbucks'', Str ''Walmart''] MoneyRAG_init))
        (Str ''Walmart'') \<noteq> Some ''Unknown''
   \<and> merchant_cache (snd (enrich example_ext [Str ''Starbucks'', Str ''Starbucks'', Str ''Walmart''] MoneyRAG_init))
        (Str ''Starbucks'') = Some ''Coffee shop''"
  by (simp add: model_defs Let_def)

section \<open>How many searches a batch issues\<close>

text \<open>
  C4. A batch sends one search for each distinct description that is not in the session
  cache when the batch starts, and no other: the calls of earlier batches stay as they
  are, the new calls are the questions for exactly those descriptions, and their number
  is the number of those descriptions, however often a description is repeated. The
  mapping that the batch returns has exactly the descriptions of the batch as its keys.
  When every description is cached the batch sends nothing. The number of searches and
  the keys of the mapping are the same for every run of the tasks that the event loop can
  produce.
\<close>

theorem one_lookup_per_uncached_description:
  "length (search_calls (snd (enrich ext descriptions s)))
      = length (search_calls s) + card {d \<in> set descriptions. merchant_cache s d = None}
   \<and> take (length (search_calls s)) (search_calls (snd (enrich ext descriptions s))) = search_calls s
   \<and> set (drop (length (search_calls s)) (search_calls (snd (enrich ext descriptions s))))
      = search_question ext ` {d \<in> set descriptions. merchant_cache s d = None}
   \<and> dom (fst (enrich ext descriptions s)) = set descriptions
   \<and> ((\<forall>d \<in> set descriptions. merchant_cache s d \<noteq> None)
        \<longrightarrow> search_calls (snd (enrich ext descriptions s)) = search_calls s)
   \<and> ((step ext)\<^sup>*\<^sup>* (init_batch descriptions s) b \<and> finished b
        \<longrightarrow> length (search_calls (sess b))
              = length (search_calls s) + card {d \<in> set descriptions. merchant_cache s d = None}
            \<and> dom (dict_of (zip (unique descriptions) (results b))) = set descriptions)"
proof (intro conjI impI)
  show "length (search_calls (snd (enrich ext descriptions s)))
      = length (search_calls s) + card {d \<in> set descriptions. merchant_cache s d = None}"
    by (simp add: enrich_calls count_misses)
  show "take (length (search_calls s)) (search_calls (snd (enrich ext descriptions s))) = search_calls s"
    by (simp add: enrich_calls)
  show "set (drop (length (search_calls s)) (search_calls (snd (enrich ext descriptions s))))
      = search_question ext ` {d \<in> set descriptions. merchant_cache s d = None}"
    by (auto simp: enrich_calls set_unique)
  show "dom (fst (enrich ext descriptions s)) = set descriptions"
    by (rule enrich_dom)
next
  assume "\<forall>d \<in> set descriptions. merchant_cache s d \<noteq> None"
  then have "filter (\<lambda>d. merchant_cache s d = None) (unique descriptions) = []"
    by (simp add: filter_empty_conv set_unique)
  then show "search_calls (snd (enrich ext descriptions s)) = search_calls s"
    by (simp add: enrich_calls)
next
  assume h: "(step ext)\<^sup>*\<^sup>* (init_batch descriptions s) b \<and> finished b"
  then have run: "(step ext)\<^sup>*\<^sup>* (init_batch descriptions s) b" and fin: "finished b"
    by simp_all
  from schedule_independence(3) [OF run fin]
  show "length (search_calls (sess b))
              = length (search_calls s) + card {d \<in> set descriptions. merchant_cache s d = None}"
    by (simp add: gather_calls distinct_unique count_misses)
  from run_desc_map [OF run fin]
  show "dom (dict_of (zip (unique descriptions) (results b))) = set descriptions"
    by (simp add: enrich_dom)
qed

theorem one_lookup_per_uncached_description_witness:
  "length (search_calls (snd (enrich example_ext [Str ''Starbucks'', Str ''Starbucks'', Str ''Walmart''] MoneyRAG_init))) = 2
   \<and> dom (fst (enrich example_ext [Str ''Starbucks'', Str ''Starbucks'', Str ''Walmart''] MoneyRAG_init))
       = {Str ''Starbucks'', Str ''Walmart''}
   \<and> list_all (\<lambda>d. merchant_cache (snd (enrich example_ext [Str ''Starbucks'', Str ''Starbucks'', Str ''Walmart''] MoneyRAG_init)) d \<noteq> None)
        [Str ''Starbucks'', Str ''Starbucks'']
   \<and> search_calls (snd (enrich example_ext [Str ''Starbucks'', Str ''Starbucks'']
        (snd (enrich example_ext [Str ''Starbucks'', Str ''Starbucks'', Str ''Walmart''] MoneyRAG_init))))
       = search_calls (snd (enrich example_ext [Str ''Starbucks'', Str ''Starbucks'', Str ''Walmart''] MoneyRAG_init))
   \<and> finished (run example_ext [1, 0, 1, 0, 1, 0, 1, 0]
        (init_batch [Str ''Starbucks'', Str ''Starbucks'', Str ''Walmart''] MoneyRAG_init))
   \<and> length (search_calls (sess (run example_ext [1, 0, 1, 0, 1, 0, 1, 0]
        (init_batch [Str ''Starbucks'', Str ''Starbucks'', Str ''Walmart''] MoneyRAG_init)))) = 2"
proof -
  let ?ds = "[Str ''Starbucks'', Str ''Starbucks'', Str ''Walmart'']"
  let ?s1 = "snd (enrich example_ext ?ds MoneyRAG_init)"
  let ?done = "run example_ext [1, 0, 1, 0, 1, 0, 1, 0] (init_batch ?ds MoneyRAG_init)"
  have "{d \<in> set ?ds. merchant_cache MoneyRAG_init d = None} = {Str ''Starbucks'', Str ''Walmart''}"
    by (auto simp: MoneyRAG_init_def)
  then have misses: "card {d \<in> set ?ds. merchant_cache MoneyRAG_init d = None} = 2"
    by simp
  have none: "length (search_calls MoneyRAG_init) = 0"
    by (simp add: MoneyRAG_init_def)
  from one_lookup_per_uncached_description [of example_ext ?ds MoneyRAG_init]
  have "length (search_calls ?s1)
      = length (search_calls MoneyRAG_init) + card {d \<in> set ?ds. merchant_cache MoneyRAG_init d = None}"
    and "dom (fst (enrich example_ext ?ds MoneyRAG_init)) = set ?ds"
    by blast+
  with misses none have one: "length (search_calls ?s1) = 2"
    and two: "dom (fst (enrich example_ext ?ds MoneyRAG_init)) = {Str ''Starbucks'', Str ''Walmart''}"
    by auto
  have cached: "list_all (\<lambda>d. merchant_cache ?s1 d \<noteq> None) [Str ''Starbucks'', Str ''Starbucks'']"
    by (simp add: model_defs Let_def)
  then have "\<forall>d \<in> set [Str ''Starbucks'', Str ''Starbucks'']. merchant_cache ?s1 d \<noteq> None"
    by (simp add: list_all_iff)
  with one_lookup_per_uncached_description [of example_ext "[Str ''Starbucks'', Str ''Starbucks'']" ?s1]
  have three: "search_calls (snd (enrich example_ext [Str ''Starbucks'', Str ''Starbucks''] ?s1)) = search_calls ?s1"
    by blast
  have reach: "(step example_ext)\<^sup>*\<^sup>* (init_batch ?ds MoneyRAG_init) ?done"
    by (rule run_reachable)
  have fin: "finished ?done"
    by (simp add: run_defs)
  from reach fin one_lookup_per_uncached_description [of example_ext ?ds MoneyRAG_init ?done]
  have "length (search_calls (sess ?done))
      = length (search_calls MoneyRAG_init) + card {d \<in> set ?ds. merchant_cache MoneyRAG_init d = None}"
    by blast
  with misses none have four: "length (search_calls (sess ?done)) = 2"
    by simp
  from one two cached three fin four show ?thesis by blast
qed

section \<open>Indexing\<close>

lemmas index_defs = setup_session_def MoneyRAG_sync_to_qdrant_def recreate_collection_def add_texts_def
  make_point_def compose_text_def vector_count_def row_count_def

lemma build_texts_eq: "build_texts ext rows acc = acc @ map (compose_text ext) rows"
  by (induction rows arbitrary: acc) simp_all

lemma sync_success:
  assumes "transactions s = Some rows" and "rows \<noteq> []"
  shows "MoneyRAG_sync_to_qdrant ext s =
     (Inr ''transactions'',
      s\<lparr>collections := (collections s)(''transactions'' \<mapsto>
          \<lparr>vector_size = length (embed_query ext ''test''),
           points = map (\<lambda>(t, m). make_point ext t m) (zip (map (compose_text ext) rows) rows)\<rparr>)\<rparr>)"
  using assms
  by (simp add: MoneyRAG_sync_to_qdrant_def Let_def recreate_collection_def add_texts_def build_texts_eq)

lemma sync_count:
  assumes "transactions s = Some rows" and "rows \<noteq> []"
  shows "\<exists>s1. MoneyRAG_sync_to_qdrant ext s = (Inr ''transactions'', s1)
           \<and> vector_count s1 = Some (length rows) \<and> transactions s1 = Some rows"
  unfolding sync_success [OF assms]
  using assms by (simp add: vector_count_def)

text \<open>
  C5. An indexing pass over a table with rows leaves as many vector records in the
  collection as the table has rows, whatever the collection held before: indexing again
  after more rows were added gives the new number of rows, not that number plus the
  earlier records. After every \<open>setup_session\<close> that returns, the two counts are equal.
\<close>

theorem reindexing_replaces_the_collection:
  "(transactions s = Some rows \<and> rows \<noteq> [] \<longrightarrow>
      (\<exists>s1. MoneyRAG_sync_to_qdrant ext s = (Inr ''transactions'', s1)
         \<and> row_count s = Some (length rows)
         \<and> vector_count s1 = Some (length rows)
         \<and> (\<forall>s2 more. collections s2 = collections s1 \<and> transactions s2 = Some (rows @ more) \<longrightarrow>
               (\<exists>s3. MoneyRAG_sync_to_qdrant ext s2 = (Inr ''transactions'', s3)
                  \<and> vector_count s3 = Some (length rows + length more)))))
   \<and> (setup_session ext csv_paths s = (Inr (), s') \<longrightarrow>
        vector_count s' = row_count s' \<and> row_count s' \<noteq> None)"
proof (intro conjI impI)
  assume h: "transactions s = Some rows \<and> rows \<noteq> []"
  then obtain s1 where s1: "MoneyRAG_sync_to_qdrant ext s = (Inr ''transactions'', s1)"
    "vector_count s1 = Some (length rows)"
    using sync_count [of s rows ext] by blast
  have again: "\<exists>s3. MoneyRAG_sync_to_qdrant ext s2 = (Inr ''transactions'', s3)
                  \<and> vector_count s3 = Some (length rows + length more)"
    if "collections s2 = collections s1 \<and> transactions s2 = Some (rows @ more)" for s2 more
  proof -
    from that h have "transactions s2 = Some (rows @ more)" "rows @ more \<noteq> []" by simp_all
    from sync_count [OF this, of ext] show ?thesis by auto
  qed
  from h have "row_count s = Some (length rows)"
    by (simp add: row_count_def)
  with s1 again show "\<exists>s1. MoneyRAG_sync_to_qdrant ext s = (Inr ''transactions'', s1)
         \<and> row_count s = Some (length rows)
         \<and> vector_count s1 = Some (length rows)
         \<and> (\<forall>s2 more. collections s2 = collections s1 \<and> transactions s2 = Some (rows @ more) \<longrightarrow>
               (\<exists>s3. MoneyRAG_sync_to_qdrant ext s2 = (Inr ''transactions'', s3)
                  \<and> vector_count s3 = Some (length rows + length more)))"
    by blast
next
  assume ok: "setup_session ext csv_paths s = (Inr (), s')"
  then obtain s1 s2 vs where
    run: "MoneyRAG_sync_to_qdrant ext (s1\<lparr>db_set := True\<rparr>) = (Inr vs, s2)"
    and s': "s' = s2\<lparr>vector_store_set := True, agent_set := True\<rparr>"
    by (auto simp: setup_session_def split: prod.splits sum.splits)
  let ?s = "s1\<lparr>db_set := True\<rparr>"
  from run obtain rows where rows: "transactions ?s = Some rows" "rows \<noteq> []"
    by (auto simp: MoneyRAG_sync_to_qdrant_def split: option.splits if_splits)
  from sync_count [OF rows, of ext] run have "vector_count s2 = Some (length rows)" "transactions s2 = Some rows"
    by auto
  with s' have both: "vector_count s' = row_count s' \<and> row_count s' \<noteq> None"
    by (simp add: vector_count_def row_count_def)
  from both show "vector_count s' = row_count s'" by simp
  from both show "row_count s' \<noteq> None" by simp
qed

theorem reindexing_replaces_the_collection_witness:
  "fst (setup_session example_ext [chase_file] MoneyRAG_init) = Inr ()
   \<and> row_count (snd (setup_session example_ext [chase_file] MoneyRAG_init)) = Some 3
   \<and> vector_count (snd (setup_session example_ext [chase_file] MoneyRAG_init)) = Some 3
   \<and> fst (setup_session example_ext [discover_file] (snd (setup_session example_ext [chase_file] MoneyRAG_init))) = Inr ()
   \<and> row_count (snd (setup_session example_ext [discover_file]
        (snd (setup_session example_ext [chase_file] MoneyRAG_init)))) = Some 6
   \<and> vector_count (snd (setup_session example_ext [discover_file]
        (snd (setup_session example_ext [chase_file] MoneyRAG_init)))) = Some 6
   \<and> vector_count (snd (MoneyRAG_sync_to_qdrant example_ext
        (snd (setup_session example_ext [chase_file] MoneyRAG_init)))) = Some 3"
proof -
  let ?a = "snd (setup_session example_ext [chase_file] MoneyRAG_init)"
  let ?b = "snd (setup_session example_ext [discover_file] ?a)"
  have a: "setup_session example_ext [chase_file] MoneyRAG_init = (Inr (), ?a)"
    by (simp add: model_defs index_defs Let_def upt_rec)
  have rows_a: "row_count ?a = Some 3"
    by (simp add: model_defs index_defs Let_def upt_rec)
  from a reindexing_replaces_the_collection [of MoneyRAG_init rows example_ext "[chase_file]" ?a]
  have "vector_count ?a = row_count ?a" by blast
  with rows_a have vec_a: "vector_count ?a = Some 3" by simp
  have b: "setup_session example_ext [discover_file] ?a = (Inr (), ?b)"
    by (simp add: model_defs index_defs Let_def upt_rec)
  have rows_b: "row_count ?b = Some 6"
    by (simp add: model_defs index_defs Let_def upt_rec)
  from b reindexing_replaces_the_collection [of ?a rows example_ext "[discover_file]" ?b]
  have "vector_count ?b = row_count ?b" by blast
  with rows_b have vec_b: "vector_count ?b = Some 6" by simp
  have tab: "transactions ?a = Some (table_rows ?a) \<and> table_rows ?a \<noteq> []"
    by (simp add: model_defs index_defs Let_def upt_rec)
  have len: "length (table_rows ?a) = 3"
    by (simp add: model_defs index_defs Let_def upt_rec)
  from tab reindexing_replaces_the_collection [of ?a "table_rows ?a" example_ext]
  obtain s1 where "MoneyRAG_sync_to_qdrant example_ext ?a = (Inr ''transactions'', s1)"
    "vector_count s1 = Some (length (table_rows ?a))"
    by blast
  with len have again: "vector_count (snd (MoneyRAG_sync_to_qdrant example_ext ?a)) = Some 3"
    by simp
  from a have fa: "fst (setup_session example_ext [chase_file] MoneyRAG_init) = Inr ()"
    by (metis fst_conv)
  from b have fb: "fst (setup_session example_ext [discover_file] ?a) = Inr ()"
    by (metis fst_conv)
  from fa rows_a vec_a fb rows_b vec_b again show ?thesis by blast
qed

text \<open>
  C6. On a table with no rows the indexer raises its error (the \<open>ValueError\<close> of line 160,
  the empty-corpus error of the specification) and leaves the session, and with it every
  collection, as it was; on a table with rows it does not raise that error, and creates
  the collection.
\<close>

theorem empty_table_is_not_indexed:
  "(transactions s = Some [] \<longrightarrow>
      MoneyRAG_sync_to_qdrant ext s
        = (Inl (ValueError ''No transactions found in database. Please ingest CSV files first.''), s))
   \<and> (transactions s = Some rows \<and> rows \<noteq> [] \<longrightarrow>
        (\<exists>s1. MoneyRAG_sync_to_qdrant ext s = (Inr ''transactions'', s1)
           \<and> vector_count s1 = Some (length rows)))"
proof (intro conjI impI)
  assume "transactions s = Some []"
  then show "MoneyRAG_sync_to_qdrant ext s
        = (Inl (ValueError ''No transactions found in database. Please ingest CSV files first.''), s)"
    by (simp add: MoneyRAG_sync_to_qdrant_def)
next
  assume "transactions s = Some rows \<and> rows \<noteq> []"
  then show "\<exists>s1. MoneyRAG_sync_to_qdrant ext s = (Inr ''transactions'', s1)
           \<and> vector_count s1 = Some (length rows)"
    using sync_count [of s rows ext] by blast
qed

theorem empty_table_is_not_indexed_witness:
  "transactions (snd (MoneyRAG_ingest_csv example_ext header_only_file MoneyRAG_init)) = Some []
   \<and> fst (MoneyRAG_sync_to_qdrant example_ext (snd (MoneyRAG_ingest_csv example_ext header_only_file MoneyRAG_init)))
       = Inl (ValueError ''No transactions found in database. Please ingest CSV files first.'')
   \<and> snd (MoneyRAG_sync_to_qdrant example_ext (snd (MoneyRAG_ingest_csv example_ext header_only_file MoneyRAG_init)))
       = snd (MoneyRAG_ingest_csv example_ext header_only_file MoneyRAG_init)
   \<and> vector_count (snd (MoneyRAG_sync_to_qdrant example_ext
         (snd (MoneyRAG_ingest_csv example_ext header_only_file MoneyRAG_init)))) = None
   \<and> table_rows (snd (MoneyRAG_ingest_csv example_ext chase_file MoneyRAG_init)) \<noteq> []
   \<and> fst (MoneyRAG_sync_to_qdrant example_ext (snd (MoneyRAG_ingest_csv example_ext chase_file MoneyRAG_init)))
       = Inr ''transactions''
   \<and> vector_count (snd (MoneyRAG_sync_to_qdrant example_ext
         (snd (MoneyRAG_ingest_csv example_ext chase_file MoneyRAG_init)))) = Some 3"
proof -
  let ?e = "snd (MoneyRAG_ingest_csv example_ext header_only_file MoneyRAG_init)"
  let ?c = "snd (MoneyRAG_ingest_csv example_ext chase_file MoneyRAG_init)"
  have e: "transactions ?e = Some []"
    by (simp add: model_defs Let_def)
  have no_coll: "vector_count ?e = None"
    by (simp add: model_defs vector_count_def Let_def)
  from e empty_table_is_not_indexed [of ?e example_ext]
  have run: "MoneyRAG_sync_to_qdrant example_ext ?e
        = (Inl (ValueError ''No transactions found in database. Please ingest CSV files first.''), ?e)"
    by blast
  then have one: "fst (MoneyRAG_sync_to_qdrant example_ext ?e)
       = Inl (ValueError ''No transactions found in database. Please ingest CSV files first.'')"
    and two: "snd (MoneyRAG_sync_to_qdrant example_ext ?e) = ?e"
    by simp_all
  from two no_coll have three: "vector_count (snd (MoneyRAG_sync_to_qdrant example_ext ?e)) = None"
    by simp
  have c: "transactions ?c = Some (table_rows ?c) \<and> table_rows ?c \<noteq> []"
    by (simp add: model_defs Let_def upt_rec)
  have len: "length (table_rows ?c) = 3"
    by (simp add: model_defs Let_def upt_rec)
  from c empty_table_is_not_indexed [of ?c example_ext "table_rows ?c"]
  obtain s1 where "MoneyRAG_sync_to_qdrant example_ext ?c = (Inr ''transactions'', s1)"
    "vector_count s1 = Some (length (table_rows ?c))"
    by blast
  with len have four: "fst (MoneyRAG_sync_to_qdrant example_ext ?c) = Inr ''transactions''"
    and five: "vector_count (snd (MoneyRAG_sync_to_qdrant example_ext ?c)) = Some 3"
    by simp_all
  from e one two three c four five show ?thesis by blast
qed

section \<open>A file whose mapping fails\<close>

lemma ingest_all_append:
  "ingest_all ext (xs @ ys) s = (case ingest_all ext xs s of
       (Inl e, s1) \<Rightarrow> (Inl e, s1)
     | (Inr u, s1) \<Rightarrow> ingest_all ext ys s1)"
  by (induction xs arbitrary: s) (auto split: prod.splits sum.splits)

text \<open>
  C7, as amended. When the completion of one file cannot be parsed, the exception leaves
  the loop of \<open>setup_session\<close> and is raised to its caller: the files before it in the list
  stay ingested, the files after it are not ingested, whatever they are, and neither the
  indexing nor the agent is set up.
\<close>

theorem mapping_failure_ends_setup:
  "ingest_all ext earlier s = (Inr (), s1)
   \<and> chain_ainvoke ext (columns (frame f)) (head_df 10 (frame f)) (basename (file_path f)) = Inl e
   \<longrightarrow> setup_session ext (earlier @ f # later) s = (Inl e, s1)
       \<and> ingest_all ext (earlier @ f # later) s = (Inl e, s1)"
proof
  assume h: "ingest_all ext earlier s = (Inr (), s1)
   \<and> chain_ainvoke ext (columns (frame f)) (head_df 10 (frame f)) (basename (file_path f)) = Inl e"
  then have "MoneyRAG_ingest_csv ext f s1 = (Inl e, s1)"
    by (simp add: MoneyRAG_ingest_csv_def Let_def)
  with h have "ingest_all ext (earlier @ f # later) s = (Inl e, s1)"
    by (simp add: ingest_all_append)
  then show "setup_session ext (earlier @ f # later) s = (Inl e, s1)
       \<and> ingest_all ext (earlier @ f # later) s = (Inl e, s1)"
    by (simp add: setup_session_def)
qed

theorem mapping_failure_ends_setup_witness:
  "fst (ingest_all example_ext [chase_file] MoneyRAG_init) = Inr ()
   \<and> chain_ainvoke example_ext (columns (frame broken_file)) (head_df 10 (frame broken_file))
        (basename (file_path broken_file)) = Inl (OutputParserException ''Invalid json output'')
   \<and> setup_session example_ext ([chase_file] @ broken_file # [discover_file]) MoneyRAG_init
       = (Inl (OutputParserException ''Invalid json output''), snd (ingest_all example_ext [chase_file] MoneyRAG_init))
   \<and> length (table_rows (snd (ingest_all example_ext [chase_file] MoneyRAG_init))) = 3
   \<and> vector_count (snd (ingest_all example_ext [chase_file] MoneyRAG_init)) = None"
proof -
  let ?s1 = "snd (ingest_all example_ext [chase_file] MoneyRAG_init)"
  have ok: "ingest_all example_ext [chase_file] MoneyRAG_init = (Inr (), ?s1)"
    by (simp add: model_defs Let_def upt_rec)
  have bad: "chain_ainvoke example_ext (columns (frame broken_file)) (head_df 10 (frame broken_file))
        (basename (file_path broken_file)) = Inl (OutputParserException ''Invalid json output'')"
    by (simp add: model_defs)
  from ok bad mapping_failure_ends_setup [of example_ext "[chase_file]" MoneyRAG_init ?s1 broken_file
      "OutputParserException ''Invalid json output''" "[discover_file]"]
  have run: "setup_session example_ext ([chase_file] @ broken_file # [discover_file]) MoneyRAG_init
       = (Inl (OutputParserException ''Invalid json output''), ?s1)"
    by blast
  have len: "length (table_rows ?s1) = 3"
    by (simp add: model_defs Let_def upt_rec)
  have vec: "vector_count ?s1 = None"
    by (simp add: model_defs vector_count_def Let_def upt_rec)
  from ok have fok: "fst (ingest_all example_ext [chase_file] MoneyRAG_init) = Inr ()"
    by (metis fst_conv)
  from fok bad run len vec show ?thesis by blast
qed

text \<open>
  The claim as stated fails: a file that is ingested when it is given alone is not
  ingested when it comes after a file whose mapping fails.
\<close>

theorem later_files_are_skipped_counterexample:
  "fst (setup_session example_ext [chase_file] MoneyRAG_init) = Inr ()
   \<and> length (table_rows (snd (setup_session example_ext [chase_file] MoneyRAG_init))) = 3
   \<and> fst (setup_session example_ext [broken_file, chase_file] MoneyRAG_init)
       = Inl (OutputParserException ''Invalid json output'')
   \<and> table_rows (snd (setup_session example_ext [broken_file, chase_file] MoneyRAG_init)) = []
   \<and> transactions (snd (setup_session example_ext [broken_file, chase_file] MoneyRAG_init)) = None"
  by (simp add: model_defs index_defs Let_def upt_rec)

section \<open>The sign of the stored amount\<close>

lemma sync_points_amount:
  "map meta_amount (map (\<lambda>(t, m). make_point ext t m) (zip (map (compose_text ext) rows) rows))
     = map amount rows"
  by (intro nth_equalityI) (simp_all add: make_point_def)

text \<open>
  C1. For every row of a file that \<open>MoneyRAG._ingest_csv\<close> ingests, the amount stored in the
  table is the raw amount negated when the mapping's \<open>sign_convention\<close> is
  \<open>spending_is_negative\<close>, and the raw amount unchanged when it is
  \<open>spending_is_positive\<close>. The rule is applied once to each row: the new rows are as many as
  the raw amounts and carry them in order. It is the only place where the sign is
  adjusted: enrichment and the write to the table keep the amounts of the new rows, the
  rows already in the table stay as they are, and indexing copies the stored amounts into
  the metadata of the points and leaves the table alone.
\<close>

theorem sign_normalization:
  "(MoneyRAG_ingest_csv ext file s = (Inr (), s')
      \<and> chain_ainvoke ext (columns (frame file)) (head_df 10 (frame file)) (basename (file_path file)) = Inr m
     \<longrightarrow> (\<exists>raw new. raw_amounts_of file m = Inr raw \<and> table_rows s' = table_rows s @ new
             \<and> length new = length raw
             \<and> (m ''sign_convention'' = Some (JStr ''spending_is_negative'')
                  \<longrightarrow> map amount new = map (map_option uminus) raw)
             \<and> (m ''sign_convention'' = Some (JStr ''spending_is_positive'')
                  \<longrightarrow> map amount new = raw)))
   \<and> (transactions s = Some rows \<and> rows \<noteq> []
     \<longrightarrow> (\<exists>s1 c. MoneyRAG_sync_to_qdrant ext s = (Inr ''transactions'', s1)
             \<and> transactions s1 = Some rows
             \<and> collections s1 ''transactions'' = Some c
             \<and> map meta_amount (points c) = map amount rows))"
proof -
  have stored: "\<exists>raw new. raw_amounts_of file m = Inr raw \<and> table_rows s' = table_rows s @ new
             \<and> length new = length raw
             \<and> (m ''sign_convention'' = Some (JStr ''spending_is_negative'')
                  \<longrightarrow> map amount new = map (map_option uminus) raw)
             \<and> (m ''sign_convention'' = Some (JStr ''spending_is_positive'')
                  \<longrightarrow> map amount new = raw)"
    if h: "MoneyRAG_ingest_csv ext file s = (Inr (), s')
      \<and> chain_ainvoke ext (columns (frame file)) (head_df 10 (frame file)) (basename (file_path file)) = Inr m"
  proof -
    let ?ids = "map (uuid4 ext) [uuids_drawn s ..< uuids_drawn s + len_df (frame file)]"
    from h have "MoneyRAG_ingest_csv ext file s = (Inr (), s')" by simp
    from h ingest_success [OF this] obtain standard_df dm where
      std: "standardize ext file m ?ids = Inr standard_df"
      and tab: "table_rows s' = table_rows s @ attach_enrichment dm standard_df"
      by auto
    have "length ?ids = len_df (frame file)" by simp
    with standardize_amounts [OF std] obtain raw sc where
      raw: "raw_amounts_of file m = Inr raw" and sc: "m ''sign_convention'' = Some sc"
      and am: "map amount standard_df = normalize_amounts sc raw"
      and len: "length standard_df = len_df (frame file)"
      by blast
    let ?new = "attach_enrichment dm standard_df"
    have "length ?new = length raw"
      using len raw_amounts_of_length [OF raw] by (simp add: attach_enrichment_length)
    moreover have "m ''sign_convention'' = Some (JStr ''spending_is_negative'')
                  \<longrightarrow> map amount ?new = map (map_option uminus) raw"
      using am sc by (simp add: attach_enrichment_amount normalize_amounts_def times_minus_one_uminus)
    moreover have "m ''sign_convention'' = Some (JStr ''spending_is_positive'')
                  \<longrightarrow> map amount ?new = raw"
      using am sc by (auto simp: attach_enrichment_amount normalize_amounts_def)
    ultimately show ?thesis
      using raw tab by blast
  qed
  have indexed: "\<exists>s1 c. MoneyRAG_sync_to_qdrant ext s = (Inr ''transactions'', s1)
             \<and> transactions s1 = Some rows
             \<and> collections s1 ''transactions'' = Some c
             \<and> map meta_amount (points c) = map amount rows"
    if h: "transactions s = Some rows \<and> rows \<noteq> []"
  proof -
    from h have "transactions s = Some rows" "rows \<noteq> []" by simp_all
    from sync_success [OF this, of ext] have run: "MoneyRAG_sync_to_qdrant ext s =
       (Inr ''transactions'',
        s\<lparr>collections := (collections s)(''transactions'' \<mapsto>
            \<lparr>vector_size = length (embed_query ext ''test''),
             points = map (\<lambda>(t, m). make_point ext t m) (zip (map (compose_text ext) rows) rows)\<rparr>)\<rparr>)" .
    let ?c = "\<lparr>vector_size = length (embed_query ext ''test''),
             points = map (\<lambda>(t, m). make_point ext t m) (zip (map (compose_text ext) rows) rows)\<rparr>"
    let ?s1 = "s\<lparr>collections := (collections s)(''transactions'' \<mapsto> ?c)\<rparr>"
    have "transactions ?s1 = Some rows" using h by simp
    moreover have "collections ?s1 ''transactions'' = Some ?c" by simp
    moreover have "map meta_amount (points ?c) = map amount rows"
      using sync_points_amount [of ext rows] by simp
    ultimately show ?thesis using run by blast
  qed
  from stored indexed show ?thesis by blast
qed

theorem sign_normalization_witness:
  "map amount (table_rows (snd (MoneyRAG_ingest_csv example_ext chase_file MoneyRAG_init)))
      = [Some 42.5, Some 3, Some (- 100)]
   \<and> map amount (table_rows (snd (MoneyRAG_ingest_csv example_ext discover_file MoneyRAG_init)))
      = [Some (- 42.5), Some (- 3), Some 100]
   \<and> (\<exists>c. collections (snd (MoneyRAG_sync_to_qdrant example_ext
              (snd (MoneyRAG_ingest_csv example_ext chase_file MoneyRAG_init)))) ''transactions'' = Some c
         \<and> map meta_amount (points c) = [Some 42.5, Some 3, Some (- 100)])"
proof -
  let ?neg = "example_mapping ''spending_is_negative''"
  let ?pos = "example_mapping ''spending_is_positive''"
  let ?raw = "[Some (- 42.5), Some (- 3), Some (100::real)]"
  have raws: "raw_amounts_of chase_file ?neg = Inr ?raw" "raw_amounts_of discover_file ?pos = Inr ?raw"
    by (simp_all add: model_defs)
  have empty: "table_rows MoneyRAG_init = []"
    by (simp add: model_defs)
  have signs: "?neg ''sign_convention'' = Some (JStr ''spending_is_negative'')"
      "?pos ''sign_convention'' = Some (JStr ''spending_is_positive'')"
    by (simp_all add: model_defs)
  txt \<open>The file whose spending is negative.\<close>
  let ?s1 = "snd (MoneyRAG_ingest_csv example_ext chase_file MoneyRAG_init)"
  have ok1: "MoneyRAG_ingest_csv example_ext chase_file MoneyRAG_init = (Inr (), ?s1)
      \<and> chain_ainvoke example_ext (columns (frame chase_file)) (head_df 10 (frame chase_file))
            (basename (file_path chase_file)) = Inr ?neg"
    by (simp add: model_defs Let_def upt_rec)
  with sign_normalization [of example_ext chase_file MoneyRAG_init ?s1 ?neg] signs(1) obtain raw1 new1 where
    "raw_amounts_of chase_file ?neg = Inr raw1" "table_rows ?s1 = table_rows MoneyRAG_init @ new1"
    "map amount new1 = map (map_option uminus) raw1"
    by blast
  with raws empty have one: "map amount (table_rows ?s1) = [Some 42.5, Some 3, Some (- 100)]"
    by simp
  txt \<open>The file whose spending is positive.\<close>
  let ?s2 = "snd (MoneyRAG_ingest_csv example_ext discover_file MoneyRAG_init)"
  have ok2: "MoneyRAG_ingest_csv example_ext discover_file MoneyRAG_init = (Inr (), ?s2)
      \<and> chain_ainvoke example_ext (columns (frame discover_file)) (head_df 10 (frame discover_file))
            (basename (file_path discover_file)) = Inr ?pos"
    by (simp add: model_defs Let_def upt_rec)
  with sign_normalization [of example_ext discover_file MoneyRAG_init ?s2 ?pos] signs(2) obtain raw2 new2 where
    "raw_amounts_of discover_file ?pos = Inr raw2" "table_rows ?s2 = table_rows MoneyRAG_init @ new2"
    "map amount new2 = raw2"
    by blast
  with raws empty have two: "map amount (table_rows ?s2) = [Some (- 42.5), Some (- 3), Some 100]"
    by simp
  txt \<open>Indexing the table of the first file.\<close>
  have tab: "transactions ?s1 = Some (table_rows ?s1) \<and> table_rows ?s1 \<noteq> []"
    by (simp add: model_defs Let_def upt_rec)
  with sign_normalization [of example_ext f ?s1 s' m "table_rows ?s1"] obtain s3 c where
    "MoneyRAG_sync_to_qdrant example_ext ?s1 = (Inr ''transactions'', s3)"
    "collections s3 ''transactions'' = Some c" "map meta_amount (points c) = map amount (table_rows ?s1)"
    by blast
  with one have three: "\<exists>c. collections (snd (MoneyRAG_sync_to_qdrant example_ext ?s1)) ''transactions'' = Some c
         \<and> map meta_amount (points c) = [Some 42.5, Some 3, Some (- 100)]"
    by simp
  from one two three show ?thesis by blast
qed

text \<open>
  The second path, \<open>utils.data_ingestion.ingest_csv\<close>, which the session does not call, has
  the same rule under the labels that its own prompt asks for: the amount is negated when
  \<open>sign_convention\<close> is \<open>payment_is_positive\<close>, that is when spending is negative, and is
  stored as it is when it is \<open>payment_is_negative\<close>.
\<close>

lemma utils_sign_rule:
  assumes "ingest_csv ext file table = (Inr (), table')"
    and "chain_ainvoke ext (columns (frame file)) (head_df 5 (frame file)) (file_path file) = Inr m"
  shows "\<exists>raw new. raw_amounts_of file m = Inr raw \<and> rows_of table' = rows_of table @ new
           \<and> length new = length raw
           \<and> (m ''sign_convention'' = Some (JStr ''payment_is_positive'')
                \<longrightarrow> map plain_amount new = map (map_option uminus) raw)
           \<and> (m ''sign_convention'' = Some (JStr ''payment_is_negative'')
                \<longrightarrow> map plain_amount new = raw)"
proof -
  from assms obtain standard_df where
    std: "standardize_utils ext file m = Inr standard_df"
    and tab: "rows_of table' = rows_of table @ standard_df"
    by (auto simp: ingest_csv_def Let_def rows_of_def split: sum.splits option.splits)
  from standardize_utils_amounts [OF std] obtain raw where
    raw: "raw_amounts_of file m = Inr raw"
    and am: "map plain_amount standard_df = normalize_amounts_utils (m ''sign_convention'') raw"
    and len: "length standard_df = len_df (frame file)"
    by blast
  have "length standard_df = length raw"
    using len raw_amounts_of_length [OF raw] by simp
  moreover have "m ''sign_convention'' = Some (JStr ''payment_is_positive'')
                \<longrightarrow> map plain_amount standard_df = map (map_option uminus) raw"
    using am by (simp add: normalize_amounts_utils_def times_minus_one_uminus)
  moreover have "m ''sign_convention'' = Some (JStr ''payment_is_negative'')
                \<longrightarrow> map plain_amount standard_df = raw"
    using am by (simp add: normalize_amounts_utils_def)
  ultimately show ?thesis
    using raw tab by blast
qed

lemma utils_sign_rule_example:
  "map plain_amount (rows_of (snd (ingest_csv example_ext bank_file None)))
     = [Some 42.5, Some 3, Some (- 100)]"
  by (simp add: model_defs utils_defs Let_def)

end
